theory Spec2Isabelle
  imports Main "HOL-Library.Monad_Syntax"
begin

section \<open>Pieces, sides and types\<close>

text \<open>
  The embedding follows \<^verbatim>\<open>Chinese_chess_with_elysia.cpp\<close>. A piece is a character, the
  board is a string of 14 rows of 13 cells, coordinates and scores are 32-bit signed
  integers of the source, written here as \<^typ>\<open>int\<close>. A read or write outside the string
  is undefined in the source; in the model it is the value \<open>None\<close>, and so is a loop that
  does not come to an end.
\<close>

datatype Side = up | down | extra

datatype Type = pawn | cannon | rook | knight | bishop | advisor | general | empty | out

type_synonym Piece = char

definition P_UP :: Piece where "P_UP = CHR ''P''"
definition P_UC :: Piece where "P_UC = CHR ''C''"
definition P_UR :: Piece where "P_UR = CHR ''R''"
definition P_UN :: Piece where "P_UN = CHR ''N''"
definition P_UB :: Piece where "P_UB = CHR ''B''"
definition P_UA :: Piece where "P_UA = CHR ''A''"
definition P_UG :: Piece where "P_UG = CHR ''G''"
definition P_DP :: Piece where "P_DP = CHR ''p''"
definition P_DC :: Piece where "P_DC = CHR ''c''"
definition P_DR :: Piece where "P_DR = CHR ''r''"
definition P_DN :: Piece where "P_DN = CHR ''n''"
definition P_DB :: Piece where "P_DB = CHR ''b''"
definition P_DA :: Piece where "P_DA = CHR ''a''"
definition P_DG :: Piece where "P_DG = CHR ''g''"
definition P_EE :: Piece where "P_EE = CHR ''.''"
definition P_EO :: Piece where "P_EO = CHR ''#''"

definition piece_side :: "Piece \<Rightarrow> Side" where
  "piece_side p =
     (if p = P_UP \<or> p = P_UC \<or> p = P_UR \<or> p = P_UN \<or> p = P_UB \<or> p = P_UA \<or> p = P_UG
      then up
      else if p = P_DP \<or> p = P_DC \<or> p = P_DR \<or> p = P_DN \<or> p = P_DB \<or> p = P_DA \<or> p = P_DG
      then down
      else extra)"

definition piece_type :: "Piece \<Rightarrow> Type" where
  "piece_type p =
     (if p = P_UP \<or> p = P_DP then pawn
      else if p = P_UC \<or> p = P_DC then cannon
      else if p = P_UR \<or> p = P_DR then rook
      else if p = P_UN \<or> p = P_DN then knight
      else if p = P_UB \<or> p = P_DB then bishop
      else if p = P_UA \<or> p = P_DA then advisor
      else if p = P_UG \<or> p = P_DG then general
      else if p = P_EE then empty
      else out)"

text \<open>The source asserts \<open>s \<noteq> extra\<close>; with assertions compiled out the else branch
  answers \<open>up\<close> for \<open>extra\<close>.\<close>

definition piece_side_reverse :: "Side \<Rightarrow> Side" where
  "piece_side_reverse s = (if s = up then down else up)"

section \<open>Positions, moves and the board\<close>

datatype Pos = Pos (row: int) (col: int)

datatype Move = Move (mfrom: Pos) (mto: Pos)

text \<open>The four-integer constructor of \<open>Move\<close>.\<close>

definition Move4 :: "int \<Rightarrow> int \<Rightarrow> int \<Rightarrow> int \<Rightarrow> Move" where
  "Move4 beginRow beginCol endRow endCol = Move (Pos beginRow beginCol) (Pos endRow endCol)"

datatype HistoryNode = HistoryNode (mv: Move) (fp: Piece) (tp: Piece)

record Board =
  data :: string
  history :: "HistoryNode list"

definition row_num :: int where "row_num = 14"
definition col_num :: int where "col_num = 13"
definition real_row_num :: int where "real_row_num = 10"
definition real_col_num :: int where "real_col_num = 9"
definition row_begin :: int where "row_begin = 2"
definition col_begin :: int where "col_begin = 2"
definition row_end :: int where "row_end = 11"
definition col_end :: int where "col_end = 10"
definition river_up :: int where "river_up = 6"
definition river_down :: int where "river_down = 7"
definition nine_palace_up_top :: int where "nine_palace_up_top = 2"
definition nine_palace_up_bottom :: int where "nine_palace_up_bottom = 4"
definition nine_palace_up_left :: int where "nine_palace_up_left = 5"
definition nine_palace_up_right :: int where "nine_palace_up_right = 7"
definition nine_palace_down_top :: int where "nine_palace_down_top = 9"
definition nine_palace_down_bottom :: int where "nine_palace_down_bottom = 11"
definition nine_palace_down_left :: int where "nine_palace_down_left = 5"
definition nine_palace_down_right :: int where "nine_palace_down_right = 7"

text \<open>\<open>Board::clear\<close>: the opening position and an empty history.\<close>

definition opening_data :: string where
  "opening_data =
     ''#############'' @
     ''#############'' @
     ''##RNBAGABNR##'' @
     ''##.........##'' @
     ''##.C.....C.##'' @
     ''##P.P.P.P.P##'' @
     ''##.........##'' @
     ''##.........##'' @
     ''##p.p.p.p.p##'' @
     ''##.c.....c.##'' @
     ''##.........##'' @
     ''##rnbagabnr##'' @
     ''#############'' @
     ''#############''"

definition clear :: "Board \<Rightarrow> Board" where
  "clear b = b\<lparr>data := opening_data, history := []\<rparr>"

definition new_board :: Board where
  "new_board = \<lparr>data = opening_data, history = []\<rparr>"

text \<open>\<open>data[r * col_num + c]\<close>: defined only when the index lies inside the string.\<close>

definition cell_index :: "Board \<Rightarrow> int \<Rightarrow> int \<Rightarrow> nat option" where
  "cell_index b r c =
     (let i = r * col_num + c
      in if 0 \<le> i \<and> i < int (length (data b)) then Some (nat i) else None)"

definition get :: "Board \<Rightarrow> int \<Rightarrow> int \<Rightarrow> Piece option" where
  "get b r c = map_option (\<lambda>i. data b ! i) (cell_index b r c)"

definition get_pos :: "Board \<Rightarrow> Pos \<Rightarrow> Piece option" where
  "get_pos b pos = get b (row pos) (col pos)"

definition set_cell :: "Board \<Rightarrow> int \<Rightarrow> int \<Rightarrow> Piece \<Rightarrow> Board option" where
  "set_cell b r c p = map_option (\<lambda>i. b\<lparr>data := (data b)[i := p]\<rparr>) (cell_index b r c)"

definition set_pos :: "Board \<Rightarrow> Pos \<Rightarrow> Piece \<Rightarrow> Board option" where
  "set_pos b pos p = set_cell b (row pos) (col pos) p"

text \<open>\<open>Board::move\<close>: no legality check; the record goes to the back of the history.\<close>

definition move :: "Board \<Rightarrow> Move \<Rightarrow> Board option" where
  "move b m =
     do {
       f \<leftarrow> get_pos b (mfrom m);
       t \<leftarrow> get_pos b (mto m);
       let b1 = b\<lparr>history := history b @ [HistoryNode m f t]\<rparr>;
       b2 \<leftarrow> set_pos b1 (mfrom m) P_EE;
       set_pos b2 (mto m) f
     }"

text \<open>\<open>Board::undo\<close>: nothing happens on an empty history.\<close>

definition undo :: "Board \<Rightarrow> Board option" where
  "undo b =
     (if history b \<noteq> [] then
        do {
          let hist = last (history b);
          b1 \<leftarrow> set_pos b (mfrom (mv hist)) (fp hist);
          b2 \<leftarrow> set_pos b1 (mto (mv hist)) (tp hist);
          Some (b2\<lparr>history := butlast (history b2)\<rparr>)
        }
      else Some b)"

text \<open>Interior cells are the playable 10 by 9 area; storage cells are all 14 by 13.\<close>

definition interior :: "int \<Rightarrow> int \<Rightarrow> bool" where
  "interior r c \<longleftrightarrow> row_begin \<le> r \<and> r \<le> row_end \<and> col_begin \<le> c \<and> c \<le> col_end"

definition interior_pos :: "Pos \<Rightarrow> bool" where
  "interior_pos p \<longleftrightarrow> interior (row p) (col p)"

definition in_storage :: "int \<Rightarrow> int \<Rightarrow> bool" where
  "in_storage r c \<longleftrightarrow> 0 \<le> r \<and> r < row_num \<and> 0 \<le> c \<and> c < col_num"

text \<open>A board as the program keeps it: 182 cells, the sentinel on exactly the border.\<close>

definition wf_board :: "Board \<Rightarrow> bool" where
  "wf_board b \<longleftrightarrow>
     length (data b) = 182 \<and>
     (\<forall>r \<in> set [0..13]. \<forall>c \<in> set [0..12].
        (data b ! nat (r * col_num + c) = P_EO) = (\<not> interior r c))"

section \<open>Move generation\<close>

definition check_possible_move_and_insert ::
    "Board \<Rightarrow> Move list \<Rightarrow> int \<Rightarrow> int \<Rightarrow> int \<Rightarrow> int \<Rightarrow> Move list option" where
  "check_possible_move_and_insert cb moves beginRow beginCol endRow endCol =
     do {
       beginP \<leftarrow> get cb beginRow beginCol;
       endP \<leftarrow> get cb endRow endCol;
       Some (if endP \<noteq> P_EO \<and> piece_side beginP \<noteq> piece_side endP
             then moves @ [Move4 beginRow beginCol endRow endCol]
             else moves)
     }"

definition gen_moves_pawn :: "Board \<Rightarrow> Move list \<Rightarrow> int \<Rightarrow> int \<Rightarrow> Side \<Rightarrow> Move list option" where
  "gen_moves_pawn cb moves r c side =
     (if side = up then
        do {
          moves \<leftarrow> check_possible_move_and_insert cb moves r c (r + 1) c;
          if r > river_up then
            do {
              moves \<leftarrow> check_possible_move_and_insert cb moves r c r (c - 1);
              check_possible_move_and_insert cb moves r c r (c + 1)
            }
          else Some moves
        }
      else if side = down then
        do {
          moves \<leftarrow> check_possible_move_and_insert cb moves r c (r - 1) c;
          if r < river_down then
            do {
              moves \<leftarrow> check_possible_move_and_insert cb moves r c r (c - 1);
              check_possible_move_and_insert cb moves r c r (c + 1)
            }
          else Some moves
        }
      else Some moves)"

text \<open>
  The first loop of \<open>gen_moves_cannon_one_direction\<close> has no bound of its own: it runs
  until it reads a cell that is not empty. It gives back the list, the place where it
  stopped and the piece read there.
\<close>

partial_function (option) cannon_ride ::
    "Board \<Rightarrow> Move list \<Rightarrow> int \<Rightarrow> int \<Rightarrow> int \<Rightarrow> int \<Rightarrow> int \<Rightarrow> int
      \<Rightarrow> (Move list \<times> int \<times> int \<times> Piece) option" where
  "cannon_ride cb moves r c rGap cGap rw cl =
     do {
       p \<leftarrow> get cb rw cl;
       if p = P_EE
       then cannon_ride cb (moves @ [Move4 r c rw cl]) r c rGap cGap (rw + rGap) (cl + cGap)
       else Some (moves, rw, cl, p)
     }"

declare cannon_ride.simps [code]

text \<open>The second loop: past the screen, over empty cells, to the first piece.\<close>

partial_function (option) cannon_jump ::
    "Board \<Rightarrow> Move list \<Rightarrow> int \<Rightarrow> int \<Rightarrow> int \<Rightarrow> int \<Rightarrow> Side \<Rightarrow> int \<Rightarrow> int
      \<Rightarrow> Move list option" where
  "cannon_jump cb moves r c rGap cGap side rw cl =
     do {
       p \<leftarrow> get cb rw cl;
       if p = P_EE
       then cannon_jump cb moves r c rGap cGap side (rw + rGap) (cl + cGap)
       else if piece_side p = piece_side_reverse side
       then Some (moves @ [Move4 r c rw cl])
       else Some moves
     }"

declare cannon_jump.simps [code]

definition gen_moves_cannon_one_direction ::
    "Board \<Rightarrow> Move list \<Rightarrow> int \<Rightarrow> int \<Rightarrow> int \<Rightarrow> int \<Rightarrow> Side \<Rightarrow> Move list option" where
  "gen_moves_cannon_one_direction cb moves r c rGap cGap side =
     do {
       (moves, rw, cl, p) \<leftarrow> cannon_ride cb moves r c rGap cGap (r + rGap) (c + cGap);
       if p \<noteq> P_EO
       then cannon_jump cb moves r c rGap cGap side (rw + rGap) (cl + cGap)
       else Some moves
     }"

definition gen_moves_cannon :: "Board \<Rightarrow> Move list \<Rightarrow> int \<Rightarrow> int \<Rightarrow> Side \<Rightarrow> Move list option" where
  "gen_moves_cannon cb moves r c side =
     do {
       moves \<leftarrow> gen_moves_cannon_one_direction cb moves r c (- 1) 0 side;
       moves \<leftarrow> gen_moves_cannon_one_direction cb moves r c 1 0 side;
       moves \<leftarrow> gen_moves_cannon_one_direction cb moves r c 0 (- 1) side;
       gen_moves_cannon_one_direction cb moves r c 0 1 side
     }"

partial_function (option) rook_ride ::
    "Board \<Rightarrow> Move list \<Rightarrow> int \<Rightarrow> int \<Rightarrow> int \<Rightarrow> int \<Rightarrow> int \<Rightarrow> int
      \<Rightarrow> (Move list \<times> int \<times> int \<times> Piece) option" where
  "rook_ride cb moves r c rGap cGap rw cl =
     do {
       p \<leftarrow> get cb rw cl;
       if p = P_EE
       then rook_ride cb (moves @ [Move4 r c rw cl]) r c rGap cGap (rw + rGap) (cl + cGap)
       else Some (moves, rw, cl, p)
     }"

declare rook_ride.simps [code]

definition gen_moves_rook_one_direction ::
    "Board \<Rightarrow> Move list \<Rightarrow> int \<Rightarrow> int \<Rightarrow> int \<Rightarrow> int \<Rightarrow> Side \<Rightarrow> Move list option" where
  "gen_moves_rook_one_direction cb moves r c rGap cGap side =
     do {
       (moves, rw, cl, p) \<leftarrow> rook_ride cb moves r c rGap cGap (r + rGap) (c + cGap);
       Some (if piece_side p = piece_side_reverse side
             then moves @ [Move4 r c rw cl]
             else moves)
     }"

definition gen_moves_rook :: "Board \<Rightarrow> Move list \<Rightarrow> int \<Rightarrow> int \<Rightarrow> Side \<Rightarrow> Move list option" where
  "gen_moves_rook cb moves r c side =
     do {
       moves \<leftarrow> gen_moves_rook_one_direction cb moves r c (- 1) 0 side;
       moves \<leftarrow> gen_moves_rook_one_direction cb moves r c 1 0 side;
       moves \<leftarrow> gen_moves_rook_one_direction cb moves r c 0 (- 1) side;
       gen_moves_rook_one_direction cb moves r c 0 1 side
     }"

text \<open>One leg of the knight: the two moves behind it are tried only over an empty leg.\<close>

definition gen_moves_knight :: "Board \<Rightarrow> Move list \<Rightarrow> int \<Rightarrow> int \<Rightarrow> Side \<Rightarrow> Move list option" where
  "gen_moves_knight cb moves r c side =
     do {
       p \<leftarrow> get cb (r + 1) c;
       moves \<leftarrow> (if p = P_EE then
                  do {
                    moves \<leftarrow> check_possible_move_and_insert cb moves r c (r + 2) (c + 1);
                    check_possible_move_and_insert cb moves r c (r + 2) (c - 1)
                  }
                else Some moves);
       p \<leftarrow> get cb (r - 1) c;
       moves \<leftarrow> (if p = P_EE then
                  do {
                    moves \<leftarrow> check_possible_move_and_insert cb moves r c (r - 2) (c + 1);
                    check_possible_move_and_insert cb moves r c (r - 2) (c - 1)
                  }
                else Some moves);
       p \<leftarrow> get cb r (c + 1);
       moves \<leftarrow> (if p = P_EE then
                  do {
                    moves \<leftarrow> check_possible_move_and_insert cb moves r c (r + 1) (c + 2);
                    check_possible_move_and_insert cb moves r c (r - 1) (c + 2)
                  }
                else Some moves);
       p \<leftarrow> get cb r (c - 1);
       (if p = P_EE then
          do {
            moves \<leftarrow> check_possible_move_and_insert cb moves r c (r + 1) (c - 2);
            check_possible_move_and_insert cb moves r c (r - 1) (c - 2)
          }
        else Some moves)
     }"

text \<open>One diagonal of the bishop: the eye is read, the move is tried over an empty eye.\<close>

definition bishop_step ::
    "Board \<Rightarrow> Move list \<Rightarrow> int \<Rightarrow> int \<Rightarrow> int \<Rightarrow> int \<Rightarrow> Move list option" where
  "bishop_step cb moves r c dr dc =
     do {
       p \<leftarrow> get cb (r + dr) (c + dc);
       if p = P_EE
       then check_possible_move_and_insert cb moves r c (r + 2 * dr) (c + 2 * dc)
       else Some moves
     }"

definition gen_moves_bishop :: "Board \<Rightarrow> Move list \<Rightarrow> int \<Rightarrow> int \<Rightarrow> Side \<Rightarrow> Move list option" where
  "gen_moves_bishop cb moves r c side =
     (if side = up then
        do {
          moves \<leftarrow> (if r + 2 \<le> river_up then
                     do {
                       moves \<leftarrow> bishop_step cb moves r c 1 1;
                       bishop_step cb moves r c 1 (- 1)
                     }
                   else Some moves);
          moves \<leftarrow> bishop_step cb moves r c (- 1) 1;
          bishop_step cb moves r c (- 1) (- 1)
        }
      else if side = down then
        do {
          moves \<leftarrow> (if r - 2 \<ge> river_down then
                     do {
                       moves \<leftarrow> bishop_step cb moves r c (- 1) 1;
                       bishop_step cb moves r c (- 1) (- 1)
                     }
                   else Some moves);
          moves \<leftarrow> bishop_step cb moves r c 1 1;
          bishop_step cb moves r c 1 (- 1)
        }
      else Some moves)"

text \<open>A move tried under a condition on the coordinates alone.\<close>

definition check_when ::
    "bool \<Rightarrow> Board \<Rightarrow> Move list \<Rightarrow> int \<Rightarrow> int \<Rightarrow> int \<Rightarrow> int \<Rightarrow> Move list option" where
  "check_when cond cb moves r c er ec =
     (if cond then check_possible_move_and_insert cb moves r c er ec else Some moves)"

definition gen_moves_advisor :: "Board \<Rightarrow> Move list \<Rightarrow> int \<Rightarrow> int \<Rightarrow> Side \<Rightarrow> Move list option" where
  "gen_moves_advisor cb moves r c side =
     (if side = up then
        do {
          moves \<leftarrow> check_when (r + 1 \<le> nine_palace_up_bottom \<and> c + 1 \<le> nine_palace_up_right)
                     cb moves r c (r + 1) (c + 1);
          moves \<leftarrow> check_when (r + 1 \<le> nine_palace_up_bottom \<and> c - 1 \<ge> nine_palace_up_left)
                     cb moves r c (r + 1) (c - 1);
          moves \<leftarrow> check_when (r - 1 \<ge> nine_palace_up_top \<and> c + 1 \<le> nine_palace_up_right)
                     cb moves r c (r - 1) (c + 1);
          check_when (r - 1 \<ge> nine_palace_up_top \<and> c - 1 \<ge> nine_palace_up_left)
            cb moves r c (r - 1) (c - 1)
        }
      else if side = down then
        do {
          moves \<leftarrow> check_when (r + 1 \<le> nine_palace_down_bottom \<and> c + 1 \<le> nine_palace_down_right)
                     cb moves r c (r + 1) (c + 1);
          moves \<leftarrow> check_when (r + 1 \<le> nine_palace_down_bottom \<and> c - 1 \<ge> nine_palace_down_left)
                     cb moves r c (r + 1) (c - 1);
          moves \<leftarrow> check_when (r - 1 \<ge> nine_palace_down_top \<and> c + 1 \<le> nine_palace_down_right)
                     cb moves r c (r - 1) (c + 1);
          check_when (r - 1 \<ge> nine_palace_down_top \<and> c - 1 \<ge> nine_palace_down_left)
            cb moves r c (r - 1) (c - 1)
        }
      else Some moves)"

text \<open>The two bounded loops of the general that look along its column for the other
  general.\<close>

function general_face_down :: "Board \<Rightarrow> Move list \<Rightarrow> int \<Rightarrow> int \<Rightarrow> int \<Rightarrow> Move list option" where
  "general_face_down cb moves r c rw =
     (if rw \<le> row_end then
        do {
          p \<leftarrow> get cb rw c;
          if p = P_EE then general_face_down cb moves r c (rw + 1)
          else if p = P_DG then Some (moves @ [Move4 r c rw c])
          else Some moves
        }
      else Some moves)"
  by pat_completeness auto
termination
  by (relation "measure (\<lambda>(cb, moves, r, c, rw). nat (row_end + 1 - rw))") auto

declare general_face_down.simps [simp del]

function general_face_up :: "Board \<Rightarrow> Move list \<Rightarrow> int \<Rightarrow> int \<Rightarrow> int \<Rightarrow> Move list option" where
  "general_face_up cb moves r c rw =
     (if rw \<ge> row_begin then
        do {
          p \<leftarrow> get cb rw c;
          if p = P_EE then general_face_up cb moves r c (rw - 1)
          else if p = P_UG then Some (moves @ [Move4 r c rw c])
          else Some moves
        }
      else Some moves)"
  by pat_completeness auto
termination
  by (relation "measure (\<lambda>(cb, moves, r, c, rw). nat (rw + 1 - row_begin))") auto

declare general_face_up.simps [simp del]

definition gen_moves_general :: "Board \<Rightarrow> Move list \<Rightarrow> int \<Rightarrow> int \<Rightarrow> Side \<Rightarrow> Move list option" where
  "gen_moves_general cb moves r c side =
     (if side = up then
        do {
          moves \<leftarrow> check_when (r + 1 \<le> nine_palace_up_bottom) cb moves r c (r + 1) c;
          moves \<leftarrow> check_when (r - 1 \<ge> nine_palace_up_top) cb moves r c (r - 1) c;
          moves \<leftarrow> check_when (c + 1 \<le> nine_palace_up_right) cb moves r c r (c + 1);
          moves \<leftarrow> check_when (c - 1 \<ge> nine_palace_up_left) cb moves r c r (c - 1);
          general_face_down cb moves r c (r + 1)
        }
      else if side = down then
        do {
          moves \<leftarrow> check_when (r + 1 \<le> nine_palace_down_bottom) cb moves r c (r + 1) c;
          moves \<leftarrow> check_when (r - 1 \<ge> nine_palace_down_top) cb moves r c (r - 1) c;
          moves \<leftarrow> check_when (c + 1 \<le> nine_palace_down_right) cb moves r c r (c + 1);
          moves \<leftarrow> check_when (c - 1 \<ge> nine_palace_down_left) cb moves r c r (c - 1);
          general_face_up cb moves r c (r - 1)
        }
      else Some moves)"

text \<open>A \<open>for\<close> loop over a list of indices whose body may fail.\<close>

fun for_each :: "'a list \<Rightarrow> ('a \<Rightarrow> 's \<Rightarrow> 's option) \<Rightarrow> 's \<Rightarrow> 's option" where
  "for_each [] body s = Some s"
| "for_each (x # xs) body s = body x s \<bind> for_each xs body"

text \<open>The body of the double loop of \<open>gen_possible_moves\<close>.\<close>

definition gen_cell :: "Board \<Rightarrow> Side \<Rightarrow> int \<Rightarrow> int \<Rightarrow> Move list \<Rightarrow> Move list option" where
  "gen_cell cb side r c moves =
     do {
       p \<leftarrow> get cb r c;
       if piece_side p = side then
         (case piece_type p of
            pawn \<Rightarrow> gen_moves_pawn cb moves r c side
          | cannon \<Rightarrow> gen_moves_cannon cb moves r c side
          | rook \<Rightarrow> gen_moves_rook cb moves r c side
          | knight \<Rightarrow> gen_moves_knight cb moves r c side
          | bishop \<Rightarrow> gen_moves_bishop cb moves r c side
          | advisor \<Rightarrow> gen_moves_advisor cb moves r c side
          | general \<Rightarrow> gen_moves_general cb moves r c side
          | _ \<Rightarrow> Some moves)
       else Some moves
     }"

definition gen_possible_moves :: "Board \<Rightarrow> Side \<Rightarrow> Move list option" where
  "gen_possible_moves cb side =
     for_each [row_begin..row_end]
       (\<lambda>r. for_each [col_begin..col_end] (\<lambda>c. gen_cell cb side r c)) []"

section \<open>Predicates used in the statements\<close>

text \<open>
  What a generated move of side \<open>s\<close> has to satisfy: both ends on interior cells, the ends
  distinct, a piece of side \<open>s\<close> on the start cell, and on the target cell neither the
  sentinel nor a piece of side \<open>s\<close>.
\<close>

definition pseudo_move_ok :: "Board \<Rightarrow> Side \<Rightarrow> Move \<Rightarrow> bool" where
  "pseudo_move_ok b s m \<longleftrightarrow>
     interior_pos (mfrom m) \<and> interior_pos (mto m) \<and> mfrom m \<noteq> mto m \<and>
     (case (get_pos b (mfrom m), get_pos b (mto m)) of
        (Some f, Some t) \<Rightarrow> piece_side f = s \<and> t \<noteq> P_EO \<and> piece_side t \<noteq> s
      | _ \<Rightarrow> False)"

text \<open>A generator step that is defined and keeps every move in the list acceptable.\<close>

definition good :: "Board \<Rightarrow> Side \<Rightarrow> Move list option \<Rightarrow> bool" where
  "good b s x \<longleftrightarrow> (\<exists>ms. x = Some ms \<and> (\<forall>m \<in> set ms. pseudo_move_ok b s m))"

text \<open>The four directions in which cannon and rook are sent.\<close>

definition cardinal :: "int \<Rightarrow> int \<Rightarrow> bool" where
  "cardinal rGap cGap \<longleftrightarrow>
     (rGap = - 1 \<and> cGap = 0) \<or> (rGap = 1 \<and> cGap = 0) \<or>
     (rGap = 0 \<and> cGap = - 1) \<or> (rGap = 0 \<and> cGap = 1)"

text \<open>Cells at most one step outside the interior, and the number of steps a walk in a
  cardinal direction can still make before it leaves them.\<close>

definition near :: "int \<Rightarrow> int \<Rightarrow> bool" where
  "near r c \<longleftrightarrow> 1 \<le> r \<and> r \<le> 12 \<and> 1 \<le> c \<and> c \<le> 11"

definition ray_len :: "int \<Rightarrow> int \<Rightarrow> int \<Rightarrow> int \<Rightarrow> nat" where
  "ray_len rGap cGap r c =
     nat (if rGap = 1 then 12 - r else if rGap = - 1 then r - 1
          else if cGap = 1 then 11 - c else c - 1)"

text \<open>What \<open>check_possible_move_and_insert\<close> appends.\<close>

definition candidate :: "Board \<Rightarrow> int \<Rightarrow> int \<Rightarrow> int \<Rightarrow> int \<Rightarrow> Move list" where
  "candidate b r c er ec =
     (case (get b r c, get b er ec) of
        (Some f, Some t) \<Rightarrow>
          if t \<noteq> P_EO \<and> piece_side f \<noteq> piece_side t then [Move4 r c er ec] else []
      | _ \<Rightarrow> [])"

text \<open>The acceptance test of \<open>check_possible_move_and_insert\<close>: both cells can be read,
  the target is not the sentinel and not of the side of the start cell.\<close>

definition target_ok :: "Board \<Rightarrow> int \<Rightarrow> int \<Rightarrow> int \<Rightarrow> int \<Rightarrow> bool" where
  "target_ok b r c er ec =
     (case (get b r c, get b er ec) of
        (Some f, Some t) \<Rightarrow> t \<noteq> P_EO \<and> piece_side f \<noteq> piece_side t
      | _ \<Rightarrow> False)"

text \<open>The eight knight offsets, and the offset of the leg that belongs to each.\<close>

definition is_L :: "int \<Rightarrow> int \<Rightarrow> bool" where
  "is_L dr dc \<longleftrightarrow> (\<bar>dr\<bar> = 2 \<and> \<bar>dc\<bar> = 1) \<or> (\<bar>dr\<bar> = 1 \<and> \<bar>dc\<bar> = 2)"

definition knight_leg :: "int \<Rightarrow> int \<Rightarrow> int \<times> int" where
  "knight_leg dr dc = (if \<bar>dr\<bar> = 2 then (dr div 2, 0) else (0, dc div 2))"

text \<open>
  What a move of a bishop of side \<open>s\<close> on \<open>(r, c)\<close> should be: two cells along one of the
  four diagonals, over an empty eye, and landing on the side of the river that belongs
  to \<open>s\<close>.
\<close>

definition bishop_move_ok :: "Board \<Rightarrow> Side \<Rightarrow> int \<Rightarrow> int \<Rightarrow> Move \<Rightarrow> bool" where
  "bishop_move_ok b s r c m \<longleftrightarrow>
     (\<exists>dr \<in> {- 1, 1}. \<exists>dc \<in> {- 1, 1}.
        m = Move4 r c (r + 2 * dr) (c + 2 * dc) \<and>
        get b (r + dr) (c + dc) = Some P_EE \<and>
        (s = up \<longrightarrow> r + 2 * dr \<le> river_up) \<and>
        (s = down \<longrightarrow> river_down \<le> r + 2 * dr))"

text \<open>A board with an upper bishop on the lower half, used as a test input.\<close>

definition stray_bishop_board :: Board where
  "stray_bishop_board =
     \<lparr>data =
        ''#############'' @
        ''#############'' @
        ''##....G....##'' @
        ''##.........##'' @
        ''##.........##'' @
        ''##.........##'' @
        ''##.........##'' @
        ''##.........##'' @
        ''##.........##'' @
        ''##.........##'' @
        ''##..B......##'' @
        ''##...g.....##'' @
        ''#############'' @
        ''#############'',
      history = []\<rparr>"

section \<open>Evaluation\<close>

text \<open>
  The two global tables are filled from files that are not part of the sources; their
  contents are a parameter. \<open>operator[]\<close> of the map answers for every key, so each table is
  a total function. The position table is indexed by the interior-relative row and
  column.
\<close>

record Tables =
  piece_value_mapping :: "Piece \<Rightarrow> int"
  piece_pos_value_mapping :: "Piece \<Rightarrow> int \<Rightarrow> int \<Rightarrow> int"

definition int32_min :: int where "int32_min = - 2147483648"
definition int32_max :: int where "int32_max = 2147483647"

text \<open>The sum is kept in an \<open>int32_t\<close>: every addition is reduced to 32 bits, two's
  complement.\<close>

definition wrap32 :: "int \<Rightarrow> int" where
  "wrap32 x = (x + 2147483648) mod 4294967296 - 2147483648"

definition evaluate_cell :: "Tables \<Rightarrow> Board \<Rightarrow> int \<Rightarrow> int \<Rightarrow> int \<Rightarrow> int option" where
  "evaluate_cell tb board r c totalScore =
     do {
       p \<leftarrow> get board r c;
       Some (if p \<noteq> P_EE
             then wrap32 (wrap32 (totalScore + piece_value_mapping tb p) +
                          piece_pos_value_mapping tb p (r - row_begin) (c - col_begin))
             else totalScore)
     }"

definition evaluate :: "Tables \<Rightarrow> Board \<Rightarrow> int option" where
  "evaluate tb board =
     for_each [row_begin..row_end]
       (\<lambda>r. for_each [col_begin..col_end] (\<lambda>c. evaluate_cell tb board r c)) 0"

section \<open>Search\<close>

text \<open>
  The board is changed in place by the search and handed back: every function of the
  search returns the board next to its result. The loop over the moves of a maximizing
  node takes the search of the children as an argument; it stops early when
  \<open>alpha \<ge> beta\<close>.
\<close>

fun max_loop ::
    "(Board \<Rightarrow> int \<Rightarrow> int \<Rightarrow> (int \<times> Board) option) \<Rightarrow> Board \<Rightarrow> Move list \<Rightarrow> int \<Rightarrow> int \<Rightarrow> int
      \<Rightarrow> (int \<times> Board) option" where
  "max_loop child board [] maxValue alpha beta = Some (maxValue, board)"
| "max_loop child board (m # moves) maxValue alpha beta =
     do {
       board \<leftarrow> move board m;
       (v, board) \<leftarrow> child board alpha beta;
       let maxValue = max maxValue v;
       board \<leftarrow> undo board;
       let alpha = max alpha maxValue;
       if alpha \<ge> beta then Some (maxValue, board)
       else max_loop child board moves maxValue alpha beta
     }"

fun min_loop ::
    "(Board \<Rightarrow> int \<Rightarrow> int \<Rightarrow> (int \<times> Board) option) \<Rightarrow> Board \<Rightarrow> Move list \<Rightarrow> int \<Rightarrow> int \<Rightarrow> int
      \<Rightarrow> (int \<times> Board) option" where
  "min_loop child board [] minValue alpha beta = Some (minValue, board)"
| "min_loop child board (m # moves) minValue alpha beta =
     do {
       board \<leftarrow> move board m;
       (v, board) \<leftarrow> child board alpha beta;
       let minValue = min minValue v;
       board \<leftarrow> undo board;
       let beta = min beta minValue;
       if alpha \<ge> beta then Some (minValue, board)
       else min_loop child board moves minValue alpha beta
     }"

text \<open>\<open>min_max\<close>, written once: \<open>BestMoveGen\<close> and \<open>BestMoveGenParallel\<close> carry the same
  text. The depth is unsigned and is decreased only after the test for zero.\<close>

fun min_max :: "Tables \<Rightarrow> Board \<Rightarrow> nat \<Rightarrow> int \<Rightarrow> int \<Rightarrow> bool \<Rightarrow> (int \<times> Board) option" where
  "min_max tb board 0 alpha beta isMax =
     map_option (\<lambda>v. (v, board)) (evaluate tb board)"
| "min_max tb board (Suc searchDepth) alpha beta isMax =
     (if isMax then
        do {
          moves \<leftarrow> gen_possible_moves board down;
          max_loop (\<lambda>b a bt. min_max tb b searchDepth a bt (\<not> isMax))
            board moves int32_min alpha beta
        }
      else
        do {
          moves \<leftarrow> gen_possible_moves board up;
          min_loop (\<lambda>b a bt. min_max tb b searchDepth a bt (\<not> isMax))
            board moves int32_max alpha beta
        })"

text \<open>
  The loops at the root. The sequential search and the chunks of the parallel one run
  the same loop and differ in the flag handed to \<open>min_max\<close>, which is the argument
  \<open>isMax\<close> here. \<open>alpha\<close> and \<open>beta\<close> are never changed at the root.
\<close>

fun root_min_loop ::
    "Tables \<Rightarrow> nat \<Rightarrow> bool \<Rightarrow> Board \<Rightarrow> Move list \<Rightarrow> int \<Rightarrow> Move \<Rightarrow> (int \<times> Move \<times> Board) option" where
  "root_min_loop tb searchDepth isMax board [] minValue bestMove =
     Some (minValue, bestMove, board)"
| "root_min_loop tb searchDepth isMax board (m # moves) minValue bestMove =
     do {
       board \<leftarrow> move board m;
       (temp, board) \<leftarrow> min_max tb board searchDepth int32_min int32_max isMax;
       board \<leftarrow> undo board;
       if temp \<le> minValue
       then root_min_loop tb searchDepth isMax board moves temp m
       else root_min_loop tb searchDepth isMax board moves minValue bestMove
     }"

fun root_max_loop ::
    "Tables \<Rightarrow> nat \<Rightarrow> bool \<Rightarrow> Board \<Rightarrow> Move list \<Rightarrow> int \<Rightarrow> Move \<Rightarrow> (int \<times> Move \<times> Board) option" where
  "root_max_loop tb searchDepth isMax board [] maxValue bestMove =
     Some (maxValue, bestMove, board)"
| "root_max_loop tb searchDepth isMax board (m # moves) maxValue bestMove =
     do {
       board \<leftarrow> move board m;
       (temp, board) \<leftarrow> min_max tb board searchDepth int32_min int32_max isMax;
       board \<leftarrow> undo board;
       if temp \<ge> maxValue
       then root_max_loop tb searchDepth isMax board moves temp m
       else root_max_loop tb searchDepth isMax board moves maxValue bestMove
     }"

text \<open>The default \<open>Move\<close>.\<close>

definition Move0 :: Move where
  "Move0 = Move (Pos 0 0) (Pos 0 0)"

text \<open>\<open>BestMoveGen::gen\<close> up to its last statement: the best value, the best move and the
  board.\<close>

definition gen_root :: "Tables \<Rightarrow> Board \<Rightarrow> Side \<Rightarrow> nat \<Rightarrow> (int \<times> Move \<times> Board) option" where
  "gen_root tb board s searchDepth =
     (if s = up then
        do {
          moves \<leftarrow> gen_possible_moves board up;
          root_min_loop tb searchDepth True board moves int32_max Move0
        }
      else
        do {
          moves \<leftarrow> gen_possible_moves board down;
          root_max_loop tb searchDepth False board moves int32_min Move0
        })"

definition gen :: "Tables \<Rightarrow> Board \<Rightarrow> Side \<Rightarrow> nat \<Rightarrow> (Move \<times> Board) option" where
  "gen tb board s searchDepth =
     map_option (\<lambda>(v, bestMove, board). (bestMove, board)) (gen_root tb board s searchDepth)"

section \<open>Parallel search\<close>

text \<open>
  \<open>split_vector\<close>. For an empty vector \<open>chunkNum\<close> becomes 0 and the unsigned \<open>chunkNum - 1\<close>
  wraps around: the loop builds spans far beyond the vector, which is undefined.
\<close>

definition split_vector :: "'a list \<Rightarrow> nat \<Rightarrow> 'a list list option" where
  "split_vector vec chunkNum0 =
     (let chunkLength0 = length vec div chunkNum0;
          chunkNum = (if chunkLength0 = 0 then length vec else chunkNum0);
          chunkLength = (if chunkLength0 = 0 then 1 else chunkLength0)
      in if chunkNum = 0 then None
         else Some (map (\<lambda>counter. take chunkLength (drop (counter * chunkLength) vec))
                        [0..<chunkNum - 1]
                    @ [drop ((chunkNum - 1) * chunkLength) vec]))"

definition split_chunk_num :: nat where "split_chunk_num = 32"

text \<open>
  The reducer keeps its best value in a \<open>float\<close>. Converting an \<open>int32_t\<close> to binary32
  rounds to 24 significant bits, to nearest and to even on a tie; the result is again an
  integer, which is the value computed here.
\<close>

definition float_exponent :: "int \<Rightarrow> nat" where
  "float_exponent a =
     (if a < 16777216 then 0 else if a < 33554432 then 1 else if a < 67108864 then 2
      else if a < 134217728 then 3 else if a < 268435456 then 4 else if a < 536870912 then 5
      else if a < 1073741824 then 6 else if a < 2147483648 then 7 else 8)"

definition float_of_int32 :: "int \<Rightarrow> int" where
  "float_of_int32 v =
     (let a = \<bar>v\<bar>; e = float_exponent a; q = a div 2 ^ e; rest = a mod 2 ^ e;
          q' = (if 2 * rest > 2 ^ e \<or> (2 * rest = 2 ^ e \<and> odd q) then q + 1 else q)
      in sgn v * q' * 2 ^ e)"

text \<open>The two reducing loops. \<open>minIndex\<close> has no initial value in the source: \<open>None\<close>.\<close>

fun reduce_min :: "int list \<Rightarrow> nat \<Rightarrow> int \<Rightarrow> nat option \<Rightarrow> int \<times> nat option" where
  "reduce_min [] i minVal minIndex = (minVal, minIndex)"
| "reduce_min (v # bestValues) i minVal minIndex =
     (if float_of_int32 v \<le> minVal
      then reduce_min bestValues (Suc i) (float_of_int32 v) (Some i)
      else reduce_min bestValues (Suc i) minVal minIndex)"

fun reduce_max :: "int list \<Rightarrow> nat \<Rightarrow> int \<Rightarrow> nat option \<Rightarrow> int \<times> nat option" where
  "reduce_max [] i maxVal maxIndex = (maxVal, maxIndex)"
| "reduce_max (v # bestValues) i maxVal maxIndex =
     (if float_of_int32 v \<ge> maxVal
      then reduce_max bestValues (Suc i) (float_of_int32 v) (Some i)
      else reduce_max bestValues (Suc i) maxVal maxIndex)"

text \<open>
  One task of the parallel search: a copy of the board, the root loop over one chunk,
  with the flag \<open>true\<close> for either side. The tasks write to different places and are all
  joined, so their results are the list of the results of the chunks.
\<close>

definition chunk_task ::
    "Tables \<Rightarrow> Board \<Rightarrow> Side \<Rightarrow> nat \<Rightarrow> Move list \<Rightarrow> (Move \<times> int) option" where
  "chunk_task tb board s searchDepth chunk =
     (if s = up then
        map_option (\<lambda>(minValue, bestMove, tempBoard). (bestMove, minValue))
          (root_min_loop tb searchDepth True board chunk int32_max Move0)
      else
        map_option (\<lambda>(maxValue, bestMove, tempBoard). (bestMove, maxValue))
          (root_max_loop tb searchDepth True board chunk int32_min Move0))"

fun all_tasks :: "('a \<Rightarrow> 'b option) \<Rightarrow> 'a list \<Rightarrow> 'b list option" where
  "all_tasks f [] = Some []"
| "all_tasks f (x # xs) = do { y \<leftarrow> f x; ys \<leftarrow> all_tasks f xs; Some (y # ys) }"

text \<open>\<open>BestMoveGenParallel::gen\<close> up to its last statement: the reduced value (a \<open>float\<close>)
  and the move chosen.\<close>

definition gen_parallel_root :: "Tables \<Rightarrow> Board \<Rightarrow> Side \<Rightarrow> nat \<Rightarrow> (int \<times> Move) option" where
  "gen_parallel_root tb board s searchDepth =
     do {
       moves \<leftarrow> gen_possible_moves board (if s = up then up else down);
       splitMoves \<leftarrow> split_vector moves split_chunk_num;
       results \<leftarrow> all_tasks (chunk_task tb board s searchDepth) splitMoves;
       let bestMoves = map fst results;
       let bestValues = map snd results;
       let (val, index) =
         (if s = up then reduce_min bestValues 0 (float_of_int32 int32_max) None
          else reduce_max bestValues 0 (float_of_int32 int32_min) None);
       i \<leftarrow> index;
       if i < length bestMoves then Some (val, bestMoves ! i) else None
     }"

definition gen_parallel :: "Tables \<Rightarrow> Board \<Rightarrow> Side \<Rightarrow> nat \<Rightarrow> Move option" where
  "gen_parallel tb board s searchDepth =
     map_option snd (gen_parallel_root tb board s searchDepth)"

section \<open>The game\<close>

record Game =
  board :: Board
  searchDepth :: nat
  userSide :: Side
  elysiaSide :: Side
  running :: bool

definition new_game :: Game where
  "new_game = \<lparr>board = new_board, searchDepth = 3, userSide = down, elysiaSide = up,
                running = True\<rparr>"

definition check_rule :: "Game \<Rightarrow> Move \<Rightarrow> bool option" where
  "check_rule g m =
     do { moves \<leftarrow> gen_possible_moves (board g) (userSide g); Some (m \<in> set moves) }"

text \<open>Characters are compared by their codes.\<close>

definition char_between :: "char \<Rightarrow> char \<Rightarrow> char \<Rightarrow> bool" where
  "char_between lo x hi \<longleftrightarrow>
     (of_char lo :: nat) \<le> of_char x \<and> (of_char x :: nat) \<le> of_char hi"

definition is_input_a_move :: "string \<Rightarrow> bool" where
  "is_input_a_move input =
     (if length input < 4 then False
      else char_between CHR ''a'' (input ! 0) CHR ''i'' \<and>
           char_between CHR ''0'' (input ! 1) CHR ''9'' \<and>
           char_between CHR ''a'' (input ! 2) CHR ''i'' \<and>
           char_between CHR ''0'' (input ! 3) CHR ''9'')"

definition char_diff :: "char \<Rightarrow> char \<Rightarrow> int" where
  "char_diff x y = int (of_char x) - int (of_char y)"

text \<open>Called only after \<open>is_input_a_move\<close>, so the four characters exist.\<close>

definition input_to_move :: "string \<Rightarrow> Move" where
  "input_to_move input =
     Move (Pos (row_begin + 9 - char_diff (input ! 1) CHR ''0'')
               (col_begin + char_diff (input ! 0) CHR ''a''))
          (Pos (row_begin + 9 - char_diff (input ! 3) CHR ''0'')
               (col_begin + char_diff (input ! 2) CHR ''a''))"

text \<open>The scan of one row of a palace: the inner loop stops at the first hit.\<close>

fun scan_row :: "Board \<Rightarrow> Piece \<Rightarrow> int \<Rightarrow> int list \<Rightarrow> bool \<Rightarrow> bool option" where
  "scan_row b g r [] alive = Some alive"
| "scan_row b g r (c # cs) alive =
     do { p \<leftarrow> get b r c; if p = g then Some True else scan_row b g r cs alive }"

definition is_win :: "Board \<Rightarrow> Side \<Rightarrow> bool option" where
  "is_win b s =
     do {
       up_general_alive \<leftarrow>
         for_each [nine_palace_up_top..nine_palace_up_bottom]
           (\<lambda>r. scan_row b P_UG r [nine_palace_up_left..nine_palace_up_right]) False;
       down_general_alive \<leftarrow>
         for_each [nine_palace_down_top..nine_palace_down_bottom]
           (\<lambda>r. scan_row b P_DG r [nine_palace_down_left..nine_palace_down_right]) False;
       Some (if up_general_alive \<and> down_general_alive then False
             else if s = up then up_general_alive else down_general_alive)
     }"

text \<open>What \<open>handle_move\<close> tells the user.\<close>

datatype Message = unknown_command | not_your_piece | not_fit_the_rule | you_win
  | elysia_wins | elysia_moved

definition handle_move :: "Tables \<Rightarrow> Game \<Rightarrow> string \<Rightarrow> (Message \<times> Game) option" where
  "handle_move tb g input =
     (if \<not> is_input_a_move input then Some (unknown_command, g)
      else
        do {
          let m = input_to_move input;
          p \<leftarrow> get_pos (board g) (mfrom m);
          if piece_side p \<noteq> userSide g then Some (not_your_piece, g)
          else
            do {
              fits \<leftarrow> check_rule g m;
              if \<not> fits then Some (not_fit_the_rule, g)
              else
                do {
                  b \<leftarrow> move (board g) m;
                  let g = g\<lparr>board := b\<rparr>;
                  won \<leftarrow> is_win (board g) (userSide g);
                  if won then Some (you_win, g\<lparr>running := False\<rparr>)
                  else
                    do {
                      elysiaMove \<leftarrow> gen_parallel tb (board g) (elysiaSide g) (searchDepth g);
                      p \<leftarrow> get_pos (board g) (mfrom elysiaMove);
                      b \<leftarrow> move (board g) elysiaMove;
                      let g = g\<lparr>board := b\<rparr>;
                      won \<leftarrow> is_win (board g) (elysiaSide g);
                      if won then Some (elysia_wins, g\<lparr>running := False\<rparr>)
                      else Some (elysia_moved, g)
                    }
                }
            }
        })"

text \<open>
  Boards that play reaches: the sides move in turn, each move taken from the list
  generated for the side to move.
\<close>

fun play :: "Board \<Rightarrow> Side \<Rightarrow> Move list \<Rightarrow> Board option" where
  "play b s [] = Some b"
| "play b s (m # ms) =
     do {
       moves \<leftarrow> gen_possible_moves b s;
       if m \<in> set moves then do { b' \<leftarrow> move b m; play b' (piece_side_reverse s) ms }
       else None
     }"

section \<open>Test inputs\<close>

text \<open>A line of play from the opening after which the two generals face each other on
  an empty column with \<open>up\<close> to move, and the board it leads to.\<close>

definition flying_line :: "Move list" where
  "flying_line = [Move4 8 6 7 6, Move4 5 6 6 6, Move4 7 6 6 6, Move4 5 2 6 2, Move4 6 6 6 5]"

definition facing_board :: Board where
  "facing_board =
     \<lparr>data =
        ''#############'' @
        ''#############'' @
        ''##RNBAGABNR##'' @
        ''##.........##'' @
        ''##.C.....C.##'' @
        ''##..P...P.P##'' @
        ''##P..p.....##'' @
        ''##.........##'' @
        ''##p.p...p.p##'' @
        ''##.c.....c.##'' @
        ''##.........##'' @
        ''##rnbagabnr##'' @
        ''#############'' @
        ''#############'',
      history =
        [HistoryNode (Move4 8 6 7 6) P_DP P_EE,
         HistoryNode (Move4 5 6 6 6) P_UP P_EE,
         HistoryNode (Move4 7 6 6 6) P_DP P_UP,
         HistoryNode (Move4 5 2 6 2) P_UP P_EE,
         HistoryNode (Move4 6 6 6 5) P_DP P_EE]\<rparr>"

definition flying_capture :: Move where
  "flying_capture = Move4 2 6 11 6"

text \<open>Tables that count material only, and a small board on which a lower pawn can take
  a guarded upper pawn.\<close>

definition material_tables :: Tables where
  "material_tables =
     \<lparr>piece_value_mapping =
        (\<lambda>p. if p = P_UP then - 1 else if p = P_UG then - 1000
             else if p = P_DP then 10 else if p = P_DG then 1000 else 0),
      piece_pos_value_mapping = (\<lambda>p r c. 0)\<rparr>"

definition guarded_pawn_board :: Board where
  "guarded_pawn_board =
     \<lparr>data =
        ''#############'' @
        ''#############'' @
        ''##.....G...##'' @
        ''##.........##'' @
        ''##.........##'' @
        ''##P........##'' @
        ''##Pp.......##'' @
        ''##.........##'' @
        ''##.........##'' @
        ''##.........##'' @
        ''##.........##'' @
        ''##...g.....##'' @
        ''#############'' @
        ''#############'',
      history = []\<rparr>"

text \<open>A board without pieces.\<close>

definition bare_board :: Board where
  "bare_board =
     \<lparr>data =
        ''#############'' @
        ''#############'' @
        ''##.........##'' @
        ''##.........##'' @
        ''##.........##'' @
        ''##.........##'' @
        ''##.........##'' @
        ''##.........##'' @
        ''##.........##'' @
        ''##.........##'' @
        ''##.........##'' @
        ''##.........##'' @
        ''#############'' @
        ''#############'',
      history = []\<rparr>"

section \<open>The wire form of a move\<close>

text \<open>The wire form in words: a file letter \<open>a..i\<close>, a rank digit \<open>0..9\<close>, a file letter, a
  rank digit, possibly followed by more characters.\<close>

definition is_file :: "char \<Rightarrow> bool" where
  "is_file x \<longleftrightarrow> x \<in> set ''abcdefghi''"

definition is_rank :: "char \<Rightarrow> bool" where
  "is_rank x \<longleftrightarrow> x \<in> set ''0123456789''"

definition starts_with_move :: "string \<Rightarrow> bool" where
  "starts_with_move input =
     (case input of
        f1 # r1 # f2 # r2 # rest \<Rightarrow> is_file f1 \<and> is_rank r1 \<and> is_file f2 \<and> is_rank r2
      | _ \<Rightarrow> False)"

section \<open>Notions for the root of the search\<close>

definition is_int32 :: "int \<Rightarrow> bool" where
  "is_int32 v \<longleftrightarrow> int32_min \<le> v \<and> v \<le> int32_max"

text \<open>The score of the child reached by a root move: the move is made and \<open>min_max\<close> is
  run with the full window.\<close>

definition child_score :: "Tables \<Rightarrow> Board \<Rightarrow> nat \<Rightarrow> bool \<Rightarrow> Move \<Rightarrow> int option" where
  "child_score tb b d isMax m =
     do {
       b' \<leftarrow> move b m;
       (v, b'') \<leftarrow> min_max tb b' d int32_min int32_max isMax;
       Some v
     }"

text \<open>The choice made by the two root loops, on a list of moves with their scores.\<close>

fun pick_min :: "(Move \<times> int) list \<Rightarrow> int \<Rightarrow> Move \<Rightarrow> int \<times> Move" where
  "pick_min [] minValue bestMove = (minValue, bestMove)"
| "pick_min ((m, temp) # xs) minValue bestMove =
     (if temp \<le> minValue then pick_min xs temp m else pick_min xs minValue bestMove)"

fun pick_max :: "(Move \<times> int) list \<Rightarrow> int \<Rightarrow> Move \<Rightarrow> int \<times> Move" where
  "pick_max [] maxValue bestMove = (maxValue, bestMove)"
| "pick_max ((m, temp) # xs) maxValue bestMove =
     (if temp \<ge> maxValue then pick_max xs temp m else pick_max xs maxValue bestMove)"

text \<open>The list generated for \<open>down\<close> on the board with the guarded pawn.\<close>

definition guarded_pawn_moves :: "Move list" where
  "guarded_pawn_moves =
     [Move4 6 3 5 3, Move4 6 3 6 2, Move4 6 3 6 4, Move4 11 5 10 5, Move4 11 5 11 6]"

section \<open>Move and undo\<close>

lemmas piece_defs =
  P_UP_def P_UC_def P_UR_def P_UN_def P_UB_def P_UA_def P_UG_def
  P_DP_def P_DC_def P_DR_def P_DN_def P_DB_def P_DA_def P_DG_def
  P_EE_def P_EO_def

lemmas board_consts =
  row_num_def col_num_def real_row_num_def real_col_num_def
  row_begin_def col_begin_def row_end_def col_end_def river_up_def river_down_def
  nine_palace_up_top_def nine_palace_up_bottom_def nine_palace_up_left_def
  nine_palace_up_right_def nine_palace_down_top_def nine_palace_down_bottom_def
  nine_palace_down_left_def nine_palace_down_right_def

lemma cell_index_storage:
  assumes "length (data b) = 182" "in_storage r c"
  shows "cell_index b r c = Some (nat (r * 13 + c))"
  using assms by (auto simp: cell_index_def in_storage_def board_consts Let_def)

lemma interior_in_storage: "interior r c \<Longrightarrow> in_storage r c"
  by (auto simp: interior_def in_storage_def board_consts)

lemma move_undo_cells:
  assumes "i < length xs" "j < length xs"
  shows "(xs[i := e, j := xs ! i])[i := xs ! i, j := xs ! j] = xs"
  using assms by (auto simp: list_eq_iff_nth_eq nth_list_update)

lemma move_then_undo:
  assumes "length (data b) = 182"
    and "interior_pos (mfrom m)" and "interior_pos (mto m)"
  shows "\<exists>b'. move b m = Some b' \<and> undo b' = Some b \<and>
           data b' = (data b)[nat (row (mfrom m) * 13 + col (mfrom m)) := P_EE,
                              nat (row (mto m) * 13 + col (mto m)) :=
                                data b ! nat (row (mfrom m) * 13 + col (mfrom m))]"
proof -
  obtain fr fc tr tc where m: "m = Move (Pos fr fc) (Pos tr tc)"
    by (metis Move.exhaust Pos.exhaust)
  have sf: "in_storage fr fc" and st: "in_storage tr tc"
    using assms(2,3) by (simp_all add: m interior_pos_def interior_in_storage)
  define i where "i = nat (fr * 13 + fc)"
  define j where "j = nat (tr * 13 + tc)"
  have i: "i < length (data b)" and j: "j < length (data b)"
    using sf st assms(1) by (auto simp: i_def j_def in_storage_def board_consts)
  have ci: "\<And>b'. length (data b') = 182 \<Longrightarrow> cell_index b' fr fc = Some i"
    and cj: "\<And>b'. length (data b') = 182 \<Longrightarrow> cell_index b' tr tc = Some j"
    using sf st by (simp_all add: cell_index_storage i_def j_def)
  have mv: "move b m =
      Some \<lparr>data = (data b)[i := P_EE, j := data b ! i],
            history = history b @ [HistoryNode m (data b ! i) (data b ! j)]\<rparr>"
    using assms(1) by (simp add: move_def m get_pos_def set_pos_def get_def set_cell_def ci cj)
  have un: "undo \<lparr>data = (data b)[i := P_EE, j := data b ! i],
            history = history b @ [HistoryNode m (data b ! i) (data b ! j)]\<rparr> = Some b"
    using assms(1) i j
    by (simp add: undo_def m get_pos_def set_pos_def set_cell_def ci cj move_undo_cells)
  show ?thesis
    using mv un unfolding i_def j_def m by simp
qed

text \<open>
  C3. For a board of 182 cells and a move between two interior positions, \<open>move\<close>
  followed by \<open>undo\<close> is defined and gives back the board: the same cells and the same
  history.
\<close>

theorem move_undo_restores:
  assumes "length (data b) = 182"
    and "interior_pos (mfrom m)" and "interior_pos (mto m)"
  shows "move b m \<bind> undo = Some b"
  using move_then_undo [OF assms] by auto

theorem move_undo_restores_witness:
  "length (data new_board) = 182 \<and>
   interior_pos (mfrom (Move4 8 2 7 2)) \<and> interior_pos (mto (Move4 8 2 7 2)) \<and>
   move new_board (Move4 8 2 7 2) \<bind> undo = Some new_board"
proof -
  have l: "length (data new_board) = 182"
    by (simp add: new_board_def opening_data_def)
  have f: "interior_pos (mfrom (Move4 8 2 7 2))"
    by (simp add: Move4_def interior_pos_def interior_def board_consts)
  have t: "interior_pos (mto (Move4 8 2 7 2))"
    by (simp add: Move4_def interior_pos_def interior_def board_consts)
  show ?thesis using l f t move_undo_restores [OF l f t] by simp
qed

section \<open>The generators stay on the board\<close>

lemma wf_board_new: "wf_board new_board"
  by code_simp

lemma wf_length: "wf_board b \<Longrightarrow> length (data b) = 182"
  by (simp add: wf_board_def)

lemma wf_get:
  assumes "wf_board b" "in_storage r c"
  shows "\<exists>p. get b r c = Some p \<and> (p = P_EO) = (\<not> interior r c)"
proof -
  have r: "r \<in> set [0..13]" and c: "c \<in> set [0..12]"
    using assms(2) by (auto simp: in_storage_def board_consts)
  have "(data b ! nat (r * col_num + c) = P_EO) = (\<not> interior r c)"
    using assms(1) r c unfolding wf_board_def by blast
  then show ?thesis
    using assms by (simp add: get_def cell_index_storage wf_length col_num_def)
qed

lemma piece_side_simps [simp]:
  "piece_side P_EE = extra" "piece_side P_EO = extra"
  "piece_side P_UG = up" "piece_side P_DG = down"
  by (simp_all add: piece_side_def piece_defs)

lemma P_EE_neq_P_EO [simp]: "P_EE \<noteq> P_EO" "P_EO \<noteq> P_EE"
  by (simp_all add: piece_defs)

lemma generals_neq [simp]:
  "P_DG \<noteq> P_EO" "P_UG \<noteq> P_EO" "P_DG \<noteq> P_EE" "P_UG \<noteq> P_EE"
  by (simp_all add: piece_defs)

lemma near_in_storage: "near r c \<Longrightarrow> in_storage r c"
  by (auto simp: near_def in_storage_def board_consts)

lemma good_Some: "\<forall>m \<in> set ms. pseudo_move_ok b s m \<Longrightarrow> good b s (Some ms)"
  by (simp add: good_def)

lemma good_bind:
  assumes "good b s x"
    and "\<And>ms. \<forall>m \<in> set ms. pseudo_move_ok b s m \<Longrightarrow> good b s (f ms)"
  shows "good b s (x \<bind> f)"
  using assms by (auto simp: good_def)

lemma good_if:
  assumes "c \<Longrightarrow> good b s x" "\<not> c \<Longrightarrow> good b s y"
  shows "good b s (if c then x else y)"
  using assms by simp

lemma good_get:
  assumes "wf_board b" "in_storage r c"
    and "\<And>p. get b r c = Some p \<Longrightarrow> good b s (f p)"
  shows "good b s (get b r c \<bind> f)"
  using wf_get [OF assms(1,2)] assms(3) by auto

lemma check_candidate:
  assumes "wf_board b" "in_storage r c" "in_storage er ec"
  shows "check_possible_move_and_insert b ms r c er ec = Some (ms @ candidate b r c er ec)"
proof -
  obtain f t where "get b r c = Some f" "get b er ec = Some t"
    using wf_get [OF assms(1,2)] wf_get [OF assms(1,3)] by blast
  then show ?thesis
    by (simp add: check_possible_move_and_insert_def candidate_def)
qed

lemma candidate_ok:
  assumes "wf_board b" "interior r c" "in_storage er ec"
    and "get b r c = Some f" "piece_side f = s"
    and "m \<in> set (candidate b r c er ec)"
  shows "pseudo_move_ok b s m"
proof -
  obtain t where t: "get b er ec = Some t" "(t = P_EO) = (\<not> interior er ec)"
    using wf_get [OF assms(1,3)] by blast
  from assms(6) have m: "m = Move4 r c er ec" and tt: "t \<noteq> P_EO" "piece_side f \<noteq> piece_side t"
    by (auto simp: candidate_def assms(4) t(1) split: if_splits)
  have "Pos r c \<noteq> Pos er ec" using assms(4) t(1) tt(2) by auto
  then show ?thesis
    using assms(2,4,5) t tt
    by (simp add: pseudo_move_ok_def m Move4_def interior_pos_def get_pos_def)
qed

lemma good_check:
  assumes "wf_board b" "interior r c" "in_storage er ec"
    and "get b r c = Some f" "piece_side f = s"
    and "\<forall>m \<in> set ms. pseudo_move_ok b s m"
  shows "good b s (check_possible_move_and_insert b ms r c er ec)"
  using assms candidate_ok [OF assms(1-5)]
  by (auto simp: good_def check_candidate interior_in_storage)

lemma good_check_when:
  assumes "wf_board b" "interior r c" "in_storage er ec"
    and "get b r c = Some f" "piece_side f = s"
    and "\<forall>m \<in> set ms. pseudo_move_ok b s m"
  shows "good b s (check_when cond b ms r c er ec)"
  using good_check [OF assms] assms(6) by (simp add: check_when_def good_def)

lemma good_pawn:
  assumes "wf_board b" "interior r c" "get b r c = Some f" "piece_side f = s"
    and "\<forall>m \<in> set ms. pseudo_move_ok b s m"
  shows "good b s (gen_moves_pawn b ms r c s)"
  unfolding gen_moves_pawn_def
  using assms
  by (intro good_bind good_if good_check good_Some; (assumption | (simp add: interior_def in_storage_def board_consts; fail)))

lemma good_knight:
  assumes "wf_board b" "interior r c" "get b r c = Some f" "piece_side f = s"
    and "\<forall>m \<in> set ms. pseudo_move_ok b s m"
  shows "good b s (gen_moves_knight b ms r c s)"
  unfolding gen_moves_knight_def
  using assms
  by (intro good_bind good_if good_check good_Some good_get; (assumption | (simp add: interior_def in_storage_def board_consts; fail)))

lemma good_bishop:
  assumes "wf_board b" "interior r c" "get b r c = Some f" "piece_side f = s"
    and "\<forall>m \<in> set ms. pseudo_move_ok b s m"
  shows "good b s (gen_moves_bishop b ms r c s)"
  unfolding gen_moves_bishop_def bishop_step_def
  using assms
  by (intro good_bind good_if good_check good_Some good_get; (assumption | (simp add: interior_def in_storage_def board_consts; fail)))

lemma good_advisor:
  assumes "wf_board b" "interior r c" "get b r c = Some f" "piece_side f = s"
    and "\<forall>m \<in> set ms. pseudo_move_ok b s m"
  shows "good b s (gen_moves_advisor b ms r c s)"
  unfolding gen_moves_advisor_def
  using assms
  by (intro good_bind good_if good_check_when good_Some; (assumption | (simp add: interior_def in_storage_def board_consts; fail)))


lemma cardinal_step:
  assumes "cardinal rGap cGap" "interior r c"
  shows "near (r + rGap) (c + cGap)"
    and "ray_len rGap cGap (r + rGap) (c + cGap) < ray_len rGap cGap r c"
  using assms by (auto simp: cardinal_def interior_def near_def ray_len_def board_consts)

lemma ray_shift:
  "rw + rGap + int i * rGap = rw + int (Suc i) * rGap"
  by (simp add: algebra_simps)

lemma ray_exists:
  assumes "wf_board b" "cardinal rGap cGap" "near rw cl"
  shows "\<exists>k p. (\<forall>i<k. get b (rw + int i * rGap) (cl + int i * cGap) = Some P_EE \<and>
                        interior (rw + int i * rGap) (cl + int i * cGap)) \<and>
           get b (rw + int k * rGap) (cl + int k * cGap) = Some p \<and> p \<noteq> P_EE \<and>
           near (rw + int k * rGap) (cl + int k * cGap)"
  using assms(3)
proof (induction "ray_len rGap cGap rw cl" arbitrary: rw cl rule: less_induct)
  case less
  obtain p where p: "get b rw cl = Some p" "(p = P_EO) = (\<not> interior rw cl)"
    using wf_get [OF assms(1) near_in_storage [OF less.prems]] by blast
  show ?case
  proof (cases "p = P_EE")
    case False
    with p less.prems show ?thesis by (intro exI [of _ 0] exI [of _ p]) simp
  next
    case True
    with p have int: "interior rw cl" by auto
    from less.hyps [OF cardinal_step(2) [OF assms(2) int] cardinal_step(1) [OF assms(2) int]]
    obtain k q where k:
      "\<forall>i<k. get b (rw + rGap + int i * rGap) (cl + cGap + int i * cGap) = Some P_EE \<and>
             interior (rw + rGap + int i * rGap) (cl + cGap + int i * cGap)"
      "get b (rw + rGap + int k * rGap) (cl + cGap + int k * cGap) = Some q" "q \<noteq> P_EE"
      "near (rw + rGap + int k * rGap) (cl + cGap + int k * cGap)"
      by blast
    have "\<forall>i<Suc k. get b (rw + int i * rGap) (cl + int i * cGap) = Some P_EE \<and>
                     interior (rw + int i * rGap) (cl + int i * cGap)"
    proof (intro allI impI)
      fix i assume "i < Suc k"
      then show "get b (rw + int i * rGap) (cl + int i * cGap) = Some P_EE \<and>
                 interior (rw + int i * rGap) (cl + int i * cGap)"
        using k(1) p(1) True int by (cases i) (simp_all add: ray_shift del: of_nat_Suc)
    qed
    with k(2-4) show ?thesis
      by (intro exI [of _ "Suc k"] exI [of _ q]) (simp add: ray_shift del: of_nat_Suc)
  qed
qed

lemma map_ray_Suc:
  "map (\<lambda>i. Move4 r c (rw + int i * rGap) (cl + int i * cGap)) [0..<Suc k] =
   Move4 r c rw cl # map (\<lambda>i. Move4 r c (rw + rGap + int i * rGap) (cl + cGap + int i * cGap)) [0..<k]"
  by (simp add: upt_conv_Cons map_Suc_upt [symmetric] ray_shift del: upt_Suc of_nat_Suc)

lemma cannon_ride_char:
  assumes "\<forall>i<k. get b (rw + int i * rGap) (cl + int i * cGap) = Some P_EE"
    and "get b (rw + int k * rGap) (cl + int k * cGap) = Some p" "p \<noteq> P_EE"
  shows "cannon_ride b ms r c rGap cGap rw cl =
           Some (ms @ map (\<lambda>i. Move4 r c (rw + int i * rGap) (cl + int i * cGap)) [0..<k],
                 rw + int k * rGap, cl + int k * cGap, p)"
  using assms
proof (induction k arbitrary: rw cl ms)
  case 0
  then show ?case by (subst cannon_ride.simps) simp
next
  case (Suc k)
  have e: "get b rw cl = Some P_EE" using Suc.prems(1) by force
  have "cannon_ride b (ms @ [Move4 r c rw cl]) r c rGap cGap (rw + rGap) (cl + cGap) =
          Some ((ms @ [Move4 r c rw cl]) @
                  map (\<lambda>i. Move4 r c (rw + rGap + int i * rGap) (cl + cGap + int i * cGap)) [0..<k],
                rw + rGap + int k * rGap, cl + cGap + int k * cGap, p)"
  proof (rule Suc.IH)
    show "\<forall>i<k. get b (rw + rGap + int i * rGap) (cl + cGap + int i * cGap) = Some P_EE"
      using Suc.prems(1) by (auto simp: ray_shift simp del: of_nat_Suc)
    show "get b (rw + rGap + int k * rGap) (cl + cGap + int k * cGap) = Some p"
      using Suc.prems(2) by (simp add: ray_shift del: of_nat_Suc)
    show "p \<noteq> P_EE" by fact
  qed
  then show ?case
    by (subst cannon_ride.simps) (simp add: e map_ray_Suc ray_shift del: of_nat_Suc upt_Suc)
qed


lemma rook_ride_char:
  assumes "\<forall>i<k. get b (rw + int i * rGap) (cl + int i * cGap) = Some P_EE"
    and "get b (rw + int k * rGap) (cl + int k * cGap) = Some p" "p \<noteq> P_EE"
  shows "rook_ride b ms r c rGap cGap rw cl =
           Some (ms @ map (\<lambda>i. Move4 r c (rw + int i * rGap) (cl + int i * cGap)) [0..<k],
                 rw + int k * rGap, cl + int k * cGap, p)"
  using assms
proof (induction k arbitrary: rw cl ms)
  case 0
  then show ?case by (subst rook_ride.simps) simp
next
  case (Suc k)
  have e: "get b rw cl = Some P_EE" using Suc.prems(1) by force
  have "rook_ride b (ms @ [Move4 r c rw cl]) r c rGap cGap (rw + rGap) (cl + cGap) =
          Some ((ms @ [Move4 r c rw cl]) @
                  map (\<lambda>i. Move4 r c (rw + rGap + int i * rGap) (cl + cGap + int i * cGap)) [0..<k],
                rw + rGap + int k * rGap, cl + cGap + int k * cGap, p)"
  proof (rule Suc.IH)
    show "\<forall>i<k. get b (rw + rGap + int i * rGap) (cl + cGap + int i * cGap) = Some P_EE"
      using Suc.prems(1) by (auto simp: ray_shift simp del: of_nat_Suc)
    show "get b (rw + rGap + int k * rGap) (cl + cGap + int k * cGap) = Some p"
      using Suc.prems(2) by (simp add: ray_shift del: of_nat_Suc)
    show "p \<noteq> P_EE" by fact
  qed
  then show ?case
    by (subst rook_ride.simps) (simp add: e map_ray_Suc ray_shift del: of_nat_Suc upt_Suc)
qed

lemma cannon_jump_char:
  assumes "\<forall>i<k. get b (rw + int i * rGap) (cl + int i * cGap) = Some P_EE"
    and "get b (rw + int k * rGap) (cl + int k * cGap) = Some q" "q \<noteq> P_EE"
  shows "cannon_jump b ms r c rGap cGap side rw cl =
           Some (if piece_side q = piece_side_reverse side
                 then ms @ [Move4 r c (rw + int k * rGap) (cl + int k * cGap)] else ms)"
  using assms
proof (induction k arbitrary: rw cl)
  case 0
  then show ?case by (subst cannon_jump.simps) simp
next
  case (Suc k)
  have e: "get b rw cl = Some P_EE" using Suc.prems(1) by force
  have "cannon_jump b ms r c rGap cGap side (rw + rGap) (cl + cGap) =
          Some (if piece_side q = piece_side_reverse side
                then ms @ [Move4 r c (rw + rGap + int k * rGap) (cl + cGap + int k * cGap)] else ms)"
  proof (rule Suc.IH)
    show "\<forall>i<k. get b (rw + rGap + int i * rGap) (cl + cGap + int i * cGap) = Some P_EE"
      using Suc.prems(1) by (auto simp: ray_shift simp del: of_nat_Suc)
    show "get b (rw + rGap + int k * rGap) (cl + cGap + int k * cGap) = Some q"
      using Suc.prems(2) by (simp add: ray_shift del: of_nat_Suc)
    show "q \<noteq> P_EE" by fact
  qed
  then show ?case
    by (subst cannon_jump.simps) (simp add: e ray_shift del: of_nat_Suc)
qed

lemma ok_intro:
  assumes "interior r c" "interior er ec" "get b r c = Some f" "get b er ec = Some t"
    and "piece_side f = s" "piece_side t \<noteq> s" "t \<noteq> P_EO"
  shows "pseudo_move_ok b s (Move4 r c er ec)"
proof -
  have "Pos r c \<noteq> Pos er ec" using assms(3-6) by auto
  then show ?thesis
    using assms by (simp add: pseudo_move_ok_def Move4_def interior_pos_def get_pos_def)
qed

lemma side_reverse_neq: "s = up \<or> s = down \<Longrightarrow> piece_side_reverse s \<noteq> s \<and> piece_side_reverse s \<noteq> extra"
  by (auto simp: piece_side_reverse_def)

lemma good_cannon_one_direction:
  assumes "wf_board b" "interior r c" "get b r c = Some f" "piece_side f = s"
    and "s = up \<or> s = down" "cardinal rGap cGap"
    and "\<forall>m \<in> set ms. pseudo_move_ok b s m"
  shows "good b s (gen_moves_cannon_one_direction b ms r c rGap cGap s)"
proof -
  obtain k p where k:
    "\<forall>i<k. get b (r + rGap + int i * rGap) (c + cGap + int i * cGap) = Some P_EE \<and>
           interior (r + rGap + int i * rGap) (c + cGap + int i * cGap)"
    "get b (r + rGap + int k * rGap) (c + cGap + int k * cGap) = Some p" "p \<noteq> P_EE"
    "near (r + rGap + int k * rGap) (c + cGap + int k * cGap)"
    using ray_exists [OF assms(1,6) cardinal_step(1) [OF assms(6,2)]] by blast
  define ms1 where
    "ms1 = ms @ map (\<lambda>i. Move4 r c (r + rGap + int i * rGap) (c + cGap + int i * cGap)) [0..<k]"
  have ride: "cannon_ride b ms r c rGap cGap (r + rGap) (c + cGap) =
      Some (ms1, r + rGap + int k * rGap, c + cGap + int k * cGap, p)"
    unfolding ms1_def using k(1-3) by (intro cannon_ride_char) auto
  have ok1: "\<forall>m \<in> set ms1. pseudo_move_ok b s m"
    using assms(2-5,7) k(1) by (auto simp: ms1_def intro!: ok_intro)
  show ?thesis
  proof (cases "p = P_EO")
    case True
    then show ?thesis
      using ok1 by (simp add: gen_moves_cannon_one_direction_def ride good_def)
  next
    case False
    then have int: "interior (r + rGap + int k * rGap) (c + cGap + int k * cGap)"
      using wf_get [OF assms(1) near_in_storage [OF k(4)]] k(2) by auto
    obtain j q where j:
      "\<forall>i<j. get b (r + rGap + int k * rGap + rGap + int i * rGap)
                   (c + cGap + int k * cGap + cGap + int i * cGap) = Some P_EE \<and>
           interior (r + rGap + int k * rGap + rGap + int i * rGap)
                   (c + cGap + int k * cGap + cGap + int i * cGap)"
      "get b (r + rGap + int k * rGap + rGap + int j * rGap)
             (c + cGap + int k * cGap + cGap + int j * cGap) = Some q" "q \<noteq> P_EE"
      "near (r + rGap + int k * rGap + rGap + int j * rGap)
            (c + cGap + int k * cGap + cGap + int j * cGap)"
      using ray_exists [OF assms(1,6) cardinal_step(1) [OF assms(6) int]] by blast
    have jump: "cannon_jump b ms1 r c rGap cGap s (r + rGap + int k * rGap + rGap)
                  (c + cGap + int k * cGap + cGap) =
        Some (if piece_side q = piece_side_reverse s
              then ms1 @ [Move4 r c (r + rGap + int k * rGap + rGap + int j * rGap)
                            (c + cGap + int k * cGap + cGap + int j * cGap)] else ms1)"
      using j(1-3) by (intro cannon_jump_char) auto
    have "pseudo_move_ok b s (Move4 r c (r + rGap + int k * rGap + rGap + int j * rGap)
                            (c + cGap + int k * cGap + cGap + int j * cGap))"
      if "piece_side q = piece_side_reverse s"
    proof -
      have q: "piece_side q \<noteq> s" "q \<noteq> P_EO"
        using that side_reverse_neq [OF assms(5)] by auto
      then have "interior (r + rGap + int k * rGap + rGap + int j * rGap)
                            (c + cGap + int k * cGap + cGap + int j * cGap)"
        using wf_get [OF assms(1) near_in_storage [OF j(4)]] j(2) by auto
      then show ?thesis using assms(2-4) j(2) q by (intro ok_intro)
    qed
    then have "\<forall>m \<in> set (if piece_side q = piece_side_reverse s
              then ms1 @ [Move4 r c (r + rGap + int k * rGap + rGap + int j * rGap)
                            (c + cGap + int k * cGap + cGap + int j * cGap)] else ms1).
             pseudo_move_ok b s m"
      using ok1 by simp
    moreover have "gen_moves_cannon_one_direction b ms r c rGap cGap s =
       cannon_jump b ms1 r c rGap cGap s (r + rGap + int k * rGap + rGap)
                  (c + cGap + int k * cGap + cGap)"
      using False by (simp add: gen_moves_cannon_one_direction_def ride)
    ultimately show ?thesis
      unfolding good_def jump by blast
  qed
qed

lemma good_rook_one_direction:
  assumes "wf_board b" "interior r c" "get b r c = Some f" "piece_side f = s"
    and "s = up \<or> s = down" "cardinal rGap cGap"
    and "\<forall>m \<in> set ms. pseudo_move_ok b s m"
  shows "good b s (gen_moves_rook_one_direction b ms r c rGap cGap s)"
proof -
  obtain k p where k:
    "\<forall>i<k. get b (r + rGap + int i * rGap) (c + cGap + int i * cGap) = Some P_EE \<and>
           interior (r + rGap + int i * rGap) (c + cGap + int i * cGap)"
    "get b (r + rGap + int k * rGap) (c + cGap + int k * cGap) = Some p" "p \<noteq> P_EE"
    "near (r + rGap + int k * rGap) (c + cGap + int k * cGap)"
    using ray_exists [OF assms(1,6) cardinal_step(1) [OF assms(6,2)]] by blast
  define ms1 where
    "ms1 = ms @ map (\<lambda>i. Move4 r c (r + rGap + int i * rGap) (c + cGap + int i * cGap)) [0..<k]"
  have ride: "rook_ride b ms r c rGap cGap (r + rGap) (c + cGap) =
      Some (ms1, r + rGap + int k * rGap, c + cGap + int k * cGap, p)"
    unfolding ms1_def using k(1-3) by (intro rook_ride_char) auto
  have ok1: "\<forall>m \<in> set ms1. pseudo_move_ok b s m"
    using assms(2-5,7) k(1) by (auto simp: ms1_def intro!: ok_intro)
  have "pseudo_move_ok b s (Move4 r c (r + rGap + int k * rGap) (c + cGap + int k * cGap))"
    if "piece_side p = piece_side_reverse s"
  proof -
    have q: "piece_side p \<noteq> s" "p \<noteq> P_EO"
      using that side_reverse_neq [OF assms(5)] by auto
    then have "interior (r + rGap + int k * rGap) (c + cGap + int k * cGap)"
      using wf_get [OF assms(1) near_in_storage [OF k(4)]] k(2) by auto
    then show ?thesis using assms(2-4) k(2) q by (intro ok_intro)
  qed
  then show ?thesis
    using ok1 by (simp add: gen_moves_rook_one_direction_def ride good_def)
qed

lemma cardinal_four: "cardinal (- 1) 0" "cardinal 1 0" "cardinal 0 (- 1)" "cardinal 0 1"
  by (simp_all add: cardinal_def)

lemma good_cannon:
  assumes "wf_board b" "interior r c" "get b r c = Some f" "piece_side f = s"
    and "s = up \<or> s = down" "\<forall>m \<in> set ms. pseudo_move_ok b s m"
  shows "good b s (gen_moves_cannon b ms r c s)"
  unfolding gen_moves_cannon_def
  using assms
  apply (intro good_bind good_cannon_one_direction cardinal_four)
  apply assumption+
  done

lemma good_rook:
  assumes "wf_board b" "interior r c" "get b r c = Some f" "piece_side f = s"
    and "s = up \<or> s = down" "\<forall>m \<in> set ms. pseudo_move_ok b s m"
  shows "good b s (gen_moves_rook b ms r c s)"
  unfolding gen_moves_rook_def
  using assms
  apply (intro good_bind good_rook_one_direction cardinal_four)
  apply assumption+
  done



lemma good_general_face_down:
  assumes "wf_board b" "interior r c" "get b r c = Some f" "piece_side f = up"
    and "r < rw" "\<forall>m \<in> set ms. pseudo_move_ok b up m"
  shows "good b up (general_face_down b ms r c rw)"
  using assms
proof (induction b ms r c rw rule: general_face_down.induct)
  case (1 b ms r c rw)
  note wf = "1.prems"(1) and fr = "1.prems"(2,3,4) and lt = "1.prems"(5) and ok = "1.prems"(6)
  show ?case
  proof (cases "rw \<le> row_end")
    case False
    then show ?thesis
      using ok by (subst general_face_down.simps) (simp add: good_def)
  next
    case True
    then have int: "interior rw c"
      using fr(1) lt by (simp add: interior_def board_consts)
    obtain p where p: "get b rw c = Some p"
      using wf_get [OF wf interior_in_storage [OF int]] by blast
    consider "p = P_EE" | "p = P_DG" | "p \<noteq> P_EE" "p \<noteq> P_DG" by blast
    then show ?thesis
    proof cases
      case 1
      have "good b up (general_face_down b ms r c (rw + 1))"
        using "1.IH" [OF True p 1 wf fr _ ok] lt by simp
      then show ?thesis
        using True p 1 by (subst general_face_down.simps) simp
    next
      case 2
      have "pseudo_move_ok b up (Move4 r c rw c)"
        using fr int p 2 by (intro ok_intro [where f = f and t = p]) simp_all
      then show ?thesis
        using True p 2 ok
        by (subst general_face_down.simps) (simp add: good_def)
    next
      case 3
      then show ?thesis
        using True p ok by (subst general_face_down.simps) (simp add: good_def)
    qed
  qed
qed

lemma good_general_face_up:
  assumes "wf_board b" "interior r c" "get b r c = Some f" "piece_side f = down"
    and "rw < r" "\<forall>m \<in> set ms. pseudo_move_ok b down m"
  shows "good b down (general_face_up b ms r c rw)"
  using assms
proof (induction b ms r c rw rule: general_face_up.induct)
  case (1 b ms r c rw)
  note wf = "1.prems"(1) and fr = "1.prems"(2,3,4) and lt = "1.prems"(5) and ok = "1.prems"(6)
  show ?case
  proof (cases "rw \<ge> row_begin")
    case False
    then show ?thesis
      using ok by (subst general_face_up.simps) (simp add: good_def)
  next
    case True
    then have int: "interior rw c"
      using fr(1) lt by (simp add: interior_def board_consts)
    obtain p where p: "get b rw c = Some p"
      using wf_get [OF wf interior_in_storage [OF int]] by blast
    consider "p = P_EE" | "p = P_UG" | "p \<noteq> P_EE" "p \<noteq> P_UG" by blast
    then show ?thesis
    proof cases
      case 1
      have "good b down (general_face_up b ms r c (rw - 1))"
        using "1.IH" [OF True p 1 wf fr _ ok] lt by simp
      then show ?thesis
        using True p 1 by (subst general_face_up.simps) simp
    next
      case 2
      have "pseudo_move_ok b down (Move4 r c rw c)"
        using fr int p 2 by (intro ok_intro [where f = f and t = p]) simp_all
      then show ?thesis
        using True p 2 ok
        by (subst general_face_up.simps) (simp add: good_def)
    next
      case 3
      then show ?thesis
        using True p ok by (subst general_face_up.simps) (simp add: good_def)
    qed
  qed
qed

lemma good_general_up:
  assumes "wf_board b" "interior r c" "get b r c = Some f" "piece_side f = up"
    and "\<forall>m \<in> set ms. pseudo_move_ok b up m"
  shows "good b up (gen_moves_general b ms r c up)"
  using assms
  apply (simp only: gen_moves_general_def if_True simp_thms)
  apply (intro good_bind good_check_when good_general_face_down)
  apply (assumption | (simp add: interior_def in_storage_def board_consts; fail))+
  done

lemma good_general_down:
  assumes "wf_board b" "interior r c" "get b r c = Some f" "piece_side f = down"
    and "\<forall>m \<in> set ms. pseudo_move_ok b down m"
  shows "good b down (gen_moves_general b ms r c down)"
  using assms
  apply (simp only: gen_moves_general_def Side.distinct if_True if_False simp_thms)
  apply (intro good_bind good_check_when good_general_face_up)
  apply (assumption | (simp add: interior_def in_storage_def board_consts; fail))+
  done

lemma good_general:
  assumes "wf_board b" "interior r c" "get b r c = Some f" "piece_side f = s"
    and "\<forall>m \<in> set ms. pseudo_move_ok b s m"
  shows "good b s (gen_moves_general b ms r c s)"
proof (cases s)
  case up
  then show ?thesis using good_general_up [of b r c f ms] assms by simp
next
  case down
  then show ?thesis using good_general_down [of b r c f ms] assms by simp
next
  case extra
  then show ?thesis using assms(5) by (simp add: gen_moves_general_def good_def)
qed

lemma good_gen_cell:
  assumes "wf_board b" "interior r c" "s = up \<or> s = down"
    and "\<forall>m \<in> set ms. pseudo_move_ok b s m"
  shows "good b s (gen_cell b s r c ms)"
proof -
  obtain p where p: "get b r c = Some p"
    using wf_get [OF assms(1) interior_in_storage [OF assms(2)]] by blast
  show ?thesis
  proof (cases "piece_side p = s")
    case False
    then show ?thesis using assms(4) p by (simp add: gen_cell_def good_def)
  next
    case True
    note g = assms(1,2) p True
    show ?thesis
      using good_pawn [OF g assms(4)] good_cannon [OF g assms(3,4)] good_rook [OF g assms(3,4)]
        good_knight [OF g assms(4)] good_bishop [OF g assms(4)] good_advisor [OF g assms(4)]
        good_general [OF g assms(4)] good_Some [OF assms(4)]
      by (simp add: gen_cell_def p True split: Type.split)
  qed
qed

lemma good_for_each:
  assumes "\<And>x ms. x \<in> set xs \<Longrightarrow> \<forall>m \<in> set ms. pseudo_move_ok b s m \<Longrightarrow> good b s (body x ms)"
    and "\<forall>m \<in> set ms. pseudo_move_ok b s m"
  shows "good b s (for_each xs body ms)"
  using assms
proof (induction xs arbitrary: ms)
  case Nil
  then show ?case by (simp add: good_def)
next
  case (Cons x xs)
  have "good b s (body x ms)" using Cons.prems by simp
  then obtain ms' where ms': "body x ms = Some ms'" "\<forall>m \<in> set ms'. pseudo_move_ok b s m"
    by (auto simp: good_def)
  have "good b s (for_each xs body ms')"
    using Cons.prems(1) ms'(2) by (intro Cons.IH) simp_all
  then show ?case by (simp add: ms'(1))
qed

lemma gen_possible_moves_good:
  assumes "wf_board b" and "s = up \<or> s = down"
  shows "good b s (gen_possible_moves b s)"
  unfolding gen_possible_moves_def
proof (intro good_for_each good_gen_cell assms)
  fix r c
  assume "r \<in> set [row_begin..row_end]" "c \<in> set [col_begin..col_end]"
  then show "interior r c" by (simp add: interior_def)
qed simp_all

text \<open>
  C4. On a board with the sentinel on exactly its border and for a side \<open>s\<close> that is
  \<open>up\<close> or \<open>down\<close>, \<open>gen_possible_moves\<close> is defined (no read leaves the board, every
  loop ends), and every move it returns starts on an interior cell holding a piece of
  side \<open>s\<close>, ends on an interior cell that holds neither the sentinel nor a piece of side
  \<open>s\<close>, and has distinct ends.
\<close>

theorem gen_possible_moves_ok:
  assumes "wf_board b" and "s = up \<or> s = down"
  shows "\<exists>ms. gen_possible_moves b s = Some ms \<and> (\<forall>m \<in> set ms. pseudo_move_ok b s m)"
  using gen_possible_moves_good [OF assms] by (simp add: good_def)

theorem gen_possible_moves_ok_witness:
  "wf_board new_board \<and> (down = up \<or> down = down) \<and>
   (\<exists>ms. gen_possible_moves new_board down = Some ms \<and>
      (\<forall>m \<in> set ms. pseudo_move_ok new_board down m))"
proof -
  have w: "wf_board new_board" by (rule wf_board_new)
  have s: "down = up \<or> down = down" by simp
  show ?thesis using w s gen_possible_moves_ok [OF w s] by simp
qed

section \<open>The cannon in one direction\<close>

lemma ray_near:
  assumes "wf_board b" "cardinal rGap cGap" "near rw cl"
    and "\<forall>i<k. get b (rw + int i * rGap) (cl + int i * cGap) = Some P_EE"
  shows "near (rw + int k * rGap) (cl + int k * cGap)"
  using assms(4)
proof (induction k)
  case 0
  then show ?case using assms(3) by simp
next
  case (Suc k)
  then have n: "near (rw + int k * rGap) (cl + int k * cGap)"
    and e: "get b (rw + int k * rGap) (cl + int k * cGap) = Some P_EE"
    by simp_all
  have "interior (rw + int k * rGap) (cl + int k * cGap)"
    using wf_get [OF assms(1) near_in_storage [OF n]] e by auto
  from cardinal_step(1) [OF assms(2) this] show ?case
    by (simp add: algebra_simps)
qed

lemma map_ray_from_1:
  "map (\<lambda>i. Move4 r c (r + rGap + int i * rGap) (c + cGap + int i * cGap)) [0..<k] =
   map (\<lambda>i. Move4 r c (r + int i * rGap) (c + int i * cGap)) [1..<Suc k]"
proof -
  have "map (\<lambda>i. Move4 r c (r + int i * rGap) (c + int i * cGap)) [Suc 0..<Suc k] =
        map (\<lambda>i. Move4 r c (r + int (Suc i) * rGap) (c + int (Suc i) * cGap)) [0..<k]"
    by (simp only: map_Suc_upt [symmetric] map_map o_def)
  then show ?thesis by (simp add: ray_shift del: of_nat_Suc upt_Suc)
qed

text \<open>
  C5. A cannon on an interior cell \<open>(r, c)\<close> of a well-formed board looks in a cardinal
  direction. Let cell \<open>k\<close> be the first cell that is not empty and \<open>p\<close> its content; when
  that screen is interior, let cell \<open>j\<close> be the first cell behind it that is not empty and
  \<open>q\<close> its content. Then the generator appends exactly the empty cells \<open>1, \<dots>, k - 1\<close> as
  destinations, followed by cell \<open>j\<close> if and only if the screen is interior and \<open>q\<close> is a
  piece of the other side. The screen is not among them, and with the sentinel as first
  obstruction nothing is captured.
\<close>

theorem cannon_one_direction:
  assumes "wf_board b" "interior r c" "cardinal rGap cGap"
    and "0 < k"
    and "\<forall>i \<in> {1..<k}. get b (r + int i * rGap) (c + int i * cGap) = Some P_EE"
    and "get b (r + int k * rGap) (c + int k * cGap) = Some p" "p \<noteq> P_EE"
    and "interior (r + int k * rGap) (c + int k * cGap) \<Longrightarrow>
           k < j \<and>
           (\<forall>i \<in> {Suc k..<j}. get b (r + int i * rGap) (c + int i * cGap) = Some P_EE) \<and>
           get b (r + int j * rGap) (c + int j * cGap) = Some q \<and> q \<noteq> P_EE"
  shows "gen_moves_cannon_one_direction b ms r c rGap cGap s =
           Some (ms @ map (\<lambda>i. Move4 r c (r + int i * rGap) (c + int i * cGap)) [1..<k] @
                 (if interior (r + int k * rGap) (c + int k * cGap) \<and>
                     piece_side q = piece_side_reverse s
                  then [Move4 r c (r + int j * rGap) (c + int j * cGap)] else []))"
proof -
  obtain k' where k': "k = Suc k'" using assms(4) by (cases k) auto
  have e1: "\<forall>i<k'. get b (r + rGap + int i * rGap) (c + cGap + int i * cGap) = Some P_EE"
    using assms(5) by (auto simp: k' ray_shift simp del: of_nat_Suc)
  have p: "get b (r + rGap + int k' * rGap) (c + cGap + int k' * cGap) = Some p"
    using assms(6) by (simp add: k' ray_shift del: of_nat_Suc)
  have ride: "cannon_ride b ms r c rGap cGap (r + rGap) (c + cGap) =
      Some (ms @ map (\<lambda>i. Move4 r c (r + int i * rGap) (c + int i * cGap)) [1..<k],
            r + int k * rGap, c + int k * cGap, p)"
  proof -
    have "cannon_ride b ms r c rGap cGap (r + rGap) (c + cGap) =
      Some (ms @ map (\<lambda>i. Move4 r c (r + int i * rGap) (c + int i * cGap)) [1..<Suc k'],
            r + rGap + int k' * rGap, c + cGap + int k' * cGap, p)"
      using cannon_ride_char [OF e1 p assms(7), of ms r c] unfolding map_ray_from_1 .
    then show ?thesis by (simp only: k' ray_shift)
  qed
  have "near (r + rGap + int k' * rGap) (c + cGap + int k' * cGap)"
    using ray_near [OF assms(1,3) cardinal_step(1) [OF assms(3,2)] e1] .
  then have "in_storage (r + int k * rGap) (c + int k * cGap)"
    by (simp add: k' ray_shift near_in_storage del: of_nat_Suc)
  from wf_get [OF assms(1) this] assms(6)
  have screen: "(p = P_EO) = (\<not> interior (r + int k * rGap) (c + int k * cGap))" by auto
  show ?thesis
  proof (cases "interior (r + int k * rGap) (c + int k * cGap)")
    case False
    then show ?thesis
      using screen by (simp add: gen_moves_cannon_one_direction_def ride)
  next
    case True
    with assms(8) have j: "k < j"
      "\<forall>i \<in> {Suc k..<j}. get b (r + int i * rGap) (c + int i * cGap) = Some P_EE"
      "get b (r + int j * rGap) (c + int j * cGap) = Some q" "q \<noteq> P_EE"
      by simp_all
    define j' where "j' = j - Suc k"
    have jj: "j = Suc k + j'" using j(1) by (simp add: j'_def)
    have e2: "\<forall>i<j'. get b (r + int k * rGap + rGap + int i * rGap)
                            (c + int k * cGap + cGap + int i * cGap) = Some P_EE"
    proof (intro allI impI)
      fix i assume "i < j'"
      then have "Suc k + i \<in> {Suc k..<j}" by (simp add: jj)
      with j(2) have "get b (r + int (Suc k + i) * rGap) (c + int (Suc k + i) * cGap) = Some P_EE"
        by blast
      then show "get b (r + int k * rGap + rGap + int i * rGap)
                       (c + int k * cGap + cGap + int i * cGap) = Some P_EE"
        by (simp add: algebra_simps)
    qed
    have q: "get b (r + int k * rGap + rGap + int j' * rGap)
                   (c + int k * cGap + cGap + int j' * cGap) = Some q"
      using j(3) by (simp add: jj algebra_simps)
    have "cannon_jump b ms' r c rGap cGap s (r + int k * rGap + rGap) (c + int k * cGap + cGap) =
        Some (if piece_side q = piece_side_reverse s
              then ms' @ [Move4 r c (r + int j * rGap) (c + int j * cGap)] else ms')" for ms'
      using cannon_jump_char [OF e2 q j(4), of ms' r c s]
      by (simp add: jj algebra_simps)
    then show ?thesis
      using True screen by (simp add: gen_moves_cannon_one_direction_def ride)
  qed
qed

theorem cannon_one_direction_witness:
  "wf_board new_board \<and> interior 9 3 \<and> cardinal (- 1) 0 \<and>
   gen_moves_cannon_one_direction new_board [] 9 3 (- 1) 0 down =
     Some [Move4 9 3 8 3, Move4 9 3 7 3, Move4 9 3 6 3, Move4 9 3 5 3, Move4 9 3 2 3]"
proof -
  have i: "interior 9 3" by (simp add: interior_def board_consts)
  have c: "cardinal (- 1) 0" by (simp add: cardinal_def)
  have k: "(0::nat) < 5" by simp
  have e: "\<forall>i \<in> {1..<5}. get new_board (9 + int i * (- 1)) (3 + int i * 0) = Some P_EE"
    by code_simp
  have p: "get new_board (9 + int 5 * (- 1)) (3 + int 5 * 0) = Some P_UC" by code_simp
  have pe: "P_UC \<noteq> P_EE" by (simp add: piece_defs)
  have j1: "get new_board (9 + int 6 * (- 1)) (3 + int 6 * 0) = Some P_EE" by code_simp
  have j2: "get new_board (9 + int 7 * (- 1)) (3 + int 7 * 0) = Some P_UN" by code_simp
  have j3: "{Suc 5..<7} = {6}" by auto
  have j: "(5::nat) < 7 \<and>
      (\<forall>i \<in> {Suc 5..<7}. get new_board (9 + int i * (- 1)) (3 + int i * 0) = Some P_EE) \<and>
      get new_board (9 + int 7 * (- 1)) (3 + int 7 * 0) = Some P_UN \<and> P_UN \<noteq> P_EE"
    unfolding j3 using j1 j2 by (simp add: piece_defs)
  have s: "piece_side P_UN = piece_side_reverse down" "interior 4 3"
    by (simp_all add: piece_side_def piece_side_reverse_def piece_defs interior_def board_consts)
  have u: "[Suc 0..<5] = [1, 2, 3, 4]" by (simp add: upt_conv_Cons)
  show ?thesis
    using cannon_one_direction [OF wf_board_new i c k e p pe j, of "[]" down] s i c wf_board_new
    by (simp add: u)
qed

section \<open>Knight and bishop\<close>

lemma candidate_eq:
  "candidate b r c er ec = (if target_ok b r c er ec then [Move4 r c er ec] else [])"
  by (auto simp: candidate_def target_ok_def split: option.splits)

lemma Move4_eq [simp]:
  "Move4 r c er ec = Move4 r' c' er' ec' \<longleftrightarrow> r = r' \<and> c = c' \<and> er = er' \<and> ec = ec'"
  by (simp add: Move4_def)

lemma mem_if_list: "m \<in> set (if a then xs else []) \<longleftrightarrow> a \<and> m \<in> set xs"
  by simp

lemma is_L_cases:
  assumes "is_L dr dc"
  shows "(dr, dc) \<in> {(2, 1), (2, - 1), (- 2, 1), (- 2, - 1), (1, 2), (- 1, 2), (1, - 2), (- 1, - 2)}"
  using assms by (auto simp: is_L_def abs_if split: if_splits)

text \<open>
  C7. For a knight on an interior cell \<open>(r, c)\<close> of a well-formed board, the generator is
  defined, appends only L-shaped moves from \<open>(r, c)\<close>, and appends the move with offset
  \<open>(dr, dc)\<close> exactly when its leg cell (\<open>(r \<plusminus> 1, c)\<close> for \<open>(\<plusminus>2, \<plusminus>1)\<close>, \<open>(r, c \<plusminus> 1)\<close> for
  \<open>(\<plusminus>1, \<plusminus>2)\<close>) is empty and the target passes the acceptance test. So with a leg that is
  not empty (a piece or the sentinel) both moves behind it are left out, whatever is on
  their targets.
\<close>

theorem knight_leg_rule:
  assumes "wf_board b" "interior r c"
  shows "\<exists>new. gen_moves_knight b ms r c s = Some (ms @ new) \<and>
           (\<forall>m \<in> set new. \<exists>dr dc. is_L dr dc \<and> m = Move4 r c (r + dr) (c + dc)) \<and>
           (\<forall>dr dc. is_L dr dc \<longrightarrow>
              (Move4 r c (r + dr) (c + dc) \<in> set new \<longleftrightarrow>
                 get b (r + fst (knight_leg dr dc)) (c + snd (knight_leg dr dc)) = Some P_EE \<and>
                 target_ok b r c (r + dr) (c + dc)))"
proof -
  have st: "in_storage r c" "in_storage (r + 1) c" "in_storage (r - 1) c"
    "in_storage r (c + 1)" "in_storage r (c - 1)"
    "in_storage (r + 2) (c + 1)" "in_storage (r + 2) (c - 1)"
    "in_storage (r - 2) (c + 1)" "in_storage (r - 2) (c - 1)"
    "in_storage (r + 1) (c + 2)" "in_storage (r - 1) (c + 2)"
    "in_storage (r + 1) (c - 2)" "in_storage (r - 1) (c - 2)"
    using assms(2) by (auto simp: interior_def in_storage_def board_consts)
  obtain l1 l2 l3 l4 where l:
    "get b (r + 1) c = Some l1" "get b (r - 1) c = Some l2"
    "get b r (c + 1) = Some l3" "get b r (c - 1) = Some l4"
    using wf_get [OF assms(1)] st(2-5) by metis
  define new where "new =
    (if l1 = P_EE then candidate b r c (r + 2) (c + 1) @ candidate b r c (r + 2) (c - 1) else []) @
    (if l2 = P_EE then candidate b r c (r - 2) (c + 1) @ candidate b r c (r - 2) (c - 1) else []) @
    (if l3 = P_EE then candidate b r c (r + 1) (c + 2) @ candidate b r c (r - 1) (c + 2) else []) @
    (if l4 = P_EE then candidate b r c (r + 1) (c - 2) @ candidate b r c (r - 1) (c - 2) else [])"
  have gen: "gen_moves_knight b ms r c s = Some (ms @ new)"
    using assms(1) st by (simp add: gen_moves_knight_def l check_candidate new_def)
  have mem: "m \<in> set new \<longleftrightarrow>
      (l1 = P_EE \<and> target_ok b r c (r + 2) (c + 1) \<and> m = Move4 r c (r + 2) (c + 1)) \<or>
      (l1 = P_EE \<and> target_ok b r c (r + 2) (c - 1) \<and> m = Move4 r c (r + 2) (c - 1)) \<or>
      (l2 = P_EE \<and> target_ok b r c (r - 2) (c + 1) \<and> m = Move4 r c (r - 2) (c + 1)) \<or>
      (l2 = P_EE \<and> target_ok b r c (r - 2) (c - 1) \<and> m = Move4 r c (r - 2) (c - 1)) \<or>
      (l3 = P_EE \<and> target_ok b r c (r + 1) (c + 2) \<and> m = Move4 r c (r + 1) (c + 2)) \<or>
      (l3 = P_EE \<and> target_ok b r c (r - 1) (c + 2) \<and> m = Move4 r c (r - 1) (c + 2)) \<or>
      (l4 = P_EE \<and> target_ok b r c (r + 1) (c - 2) \<and> m = Move4 r c (r + 1) (c - 2)) \<or>
      (l4 = P_EE \<and> target_ok b r c (r - 1) (c - 2) \<and> m = Move4 r c (r - 1) (c - 2))" for m
    unfolding new_def candidate_eq set_append Un_iff mem_if_list
    by (simp only: list.set insert_iff empty_iff simp_thms) blast
  have only: "\<forall>m \<in> set new. \<exists>dr dc. is_L dr dc \<and> m = Move4 r c (r + dr) (c + dc)"
  proof
    fix m assume "m \<in> set new"
    then consider "m = Move4 r c (r + 2) (c + 1)" | "m = Move4 r c (r + 2) (c - 1)"
      | "m = Move4 r c (r - 2) (c + 1)" | "m = Move4 r c (r - 2) (c - 1)"
      | "m = Move4 r c (r + 1) (c + 2)" | "m = Move4 r c (r - 1) (c + 2)"
      | "m = Move4 r c (r + 1) (c - 2)" | "m = Move4 r c (r - 1) (c - 2)"
      unfolding mem by blast
    then show "\<exists>dr dc. is_L dr dc \<and> m = Move4 r c (r + dr) (c + dc)"
    proof cases
      case 1 then show ?thesis by (intro exI [of _ 2] exI [of _ 1]) (simp add: is_L_def)
    next
      case 2 then show ?thesis by (intro exI [of _ 2] exI [of _ "- 1"]) (simp add: is_L_def)
    next
      case 3 then show ?thesis by (intro exI [of _ "- 2"] exI [of _ 1]) (simp add: is_L_def)
    next
      case 4 then show ?thesis by (intro exI [of _ "- 2"] exI [of _ "- 1"]) (simp add: is_L_def)
    next
      case 5 then show ?thesis by (intro exI [of _ 1] exI [of _ 2]) (simp add: is_L_def)
    next
      case 6 then show ?thesis by (intro exI [of _ "- 1"] exI [of _ 2]) (simp add: is_L_def)
    next
      case 7 then show ?thesis by (intro exI [of _ 1] exI [of _ "- 2"]) (simp add: is_L_def)
    next
      case 8 then show ?thesis by (intro exI [of _ "- 1"] exI [of _ "- 2"]) (simp add: is_L_def)
    qed
  qed
  have iff: "Move4 r c (r + dr) (c + dc) \<in> set new \<longleftrightarrow>
      get b (r + fst (knight_leg dr dc)) (c + snd (knight_leg dr dc)) = Some P_EE \<and>
      target_ok b r c (r + dr) (c + dc)" if L: "is_L dr dc" for dr dc
  proof -
    consider "dr = 2" "dc = 1" | "dr = 2" "dc = - 1" | "dr = - 2" "dc = 1" | "dr = - 2" "dc = - 1"
      | "dr = 1" "dc = 2" | "dr = - 1" "dc = 2" | "dr = 1" "dc = - 2" | "dr = - 1" "dc = - 2"
      using is_L_cases [OF L] by auto
    then show ?thesis
      by cases (simp_all add: mem knight_leg_def l)
  qed
  show ?thesis using gen only iff by blast
qed

theorem knight_leg_rule_witness:
  "wf_board new_board \<and> interior 11 3 \<and>
   (\<exists>new. gen_moves_knight new_board [] 11 3 down = Some ([] @ new) \<and>
      (\<forall>m \<in> set new. \<exists>dr dc. is_L dr dc \<and> m = Move4 11 3 (11 + dr) (3 + dc)) \<and>
      (\<forall>dr dc. is_L dr dc \<longrightarrow>
         (Move4 11 3 (11 + dr) (3 + dc) \<in> set new \<longleftrightarrow>
            get new_board (11 + fst (knight_leg dr dc)) (3 + snd (knight_leg dr dc)) = Some P_EE \<and>
            target_ok new_board 11 3 (11 + dr) (3 + dc))))"
proof -
  have i: "interior 11 3" by (simp add: interior_def board_consts)
  show ?thesis
    using knight_leg_rule [OF wf_board_new i, of "[]" down] wf_board_new i by blast
qed


lemma bishop_step_eq:
  assumes "wf_board b" "interior r c" "\<bar>dr\<bar> = 1" "\<bar>dc\<bar> = 1"
  shows "\<exists>eye. get b (r + dr) (c + dc) = Some eye \<and>
           bishop_step b ms r c dr dc =
             Some (ms @ (if eye = P_EE \<and> target_ok b r c (r + 2 * dr) (c + 2 * dc)
                         then [Move4 r c (r + 2 * dr) (c + 2 * dc)] else []))"
proof -
  have st: "in_storage r c" "in_storage (r + dr) (c + dc)" "in_storage (r + 2 * dr) (c + 2 * dc)"
    using assms(2-4) by (auto simp: interior_def in_storage_def board_consts)
  obtain eye where eye: "get b (r + dr) (c + dc) = Some eye"
    using wf_get [OF assms(1) st(2)] by blast
  show ?thesis
    using assms(1) st by (simp add: bishop_step_def eye check_candidate candidate_eq)
qed

text \<open>
  C8, as it holds. For a bishop on an interior cell \<open>(r, c)\<close> of a well-formed board that
  stands on its own side of the river (row at most \<open>river_up\<close> for \<open>up\<close>, at least
  \<open>river_down\<close> for \<open>down\<close>), the generator is defined and every move it appends goes
  exactly two cells along a diagonal, over an empty eye, to a row on the same side of the
  river.
\<close>

theorem bishop_own_side:
  assumes "wf_board b" "interior r c"
    and "(s = up \<and> r \<le> river_up) \<or> (s = down \<and> river_down \<le> r)"
  shows "\<exists>new. gen_moves_bishop b ms r c s = Some (ms @ new) \<and>
           (\<forall>m \<in> set new. bishop_move_ok b s r c m)"
proof -
  let ?ok = "bishop_move_ok b s r c"
  have step: "\<exists>new. bishop_step b xs r c dr dc = Some (xs @ new) \<and> (\<forall>m \<in> set new. ?ok m)"
    if D: "dr \<in> {- 1, 1}" "dc \<in> {- 1, 1}"
      "s = up \<longrightarrow> r + 2 * dr \<le> river_up" "s = down \<longrightarrow> river_down \<le> r + 2 * dr"
    for xs dr dc
  proof -
    have a: "\<bar>dr\<bar> = 1" "\<bar>dc\<bar> = 1" using D(1,2) by auto
    obtain eye where eye: "get b (r + dr) (c + dc) = Some eye"
      "bishop_step b xs r c dr dc =
         Some (xs @ (if eye = P_EE \<and> target_ok b r c (r + 2 * dr) (c + 2 * dc)
                     then [Move4 r c (r + 2 * dr) (c + 2 * dc)] else []))"
      using bishop_step_eq [OF assms(1,2) a] by blast
    show ?thesis
    proof (cases "eye = P_EE \<and> target_ok b r c (r + 2 * dr) (c + 2 * dc)")
      case True
      then have "?ok (Move4 r c (r + 2 * dr) (c + 2 * dc))"
        unfolding bishop_move_ok_def using D eye(1) by blast
      then show ?thesis using True eye(2) by simp
    next
      case False
      then show ?thesis using eye(2) by auto
    qed
  qed
  have two: "\<exists>new. (f xs \<bind> g) = Some (xs @ new) \<and> (\<forall>m \<in> set new. ?ok m)"
    if F: "\<And>xs. \<exists>new. f xs = Some (xs @ new) \<and> (\<forall>m \<in> set new. ?ok m)"
      and G: "\<And>xs. \<exists>new. g xs = Some (xs @ new) \<and> (\<forall>m \<in> set new. ?ok m)"
    for f g :: "Move list \<Rightarrow> Move list option" and xs
  proof -
    obtain n1 where n1: "f xs = Some (xs @ n1)" "\<forall>m \<in> set n1. ?ok m" using F by blast
    obtain n2 where n2: "g (xs @ n1) = Some ((xs @ n1) @ n2)" "\<forall>m \<in> set n2. ?ok m"
      using G by blast
    show ?thesis
      using n1 n2 by (intro exI [of _ "n1 @ n2"]) auto
  qed
  have none: "\<exists>new. Some xs = Some (xs @ new) \<and> (\<forall>m \<in> set new. ?ok m)" for xs
    by (intro exI [of _ "[]"]) simp
  from assms(3) show ?thesis
  proof
    assume u: "s = up \<and> r \<le> river_up"
    have bwd: "\<exists>new. (bishop_step b xs r c (- 1) 1 \<bind> (\<lambda>moves. bishop_step b moves r c (- 1) (- 1))) =
        Some (xs @ new) \<and> (\<forall>m \<in> set new. ?ok m)" for xs
      using u by (intro two step) simp_all
    have fwd: "\<exists>new. (if r + 2 \<le> river_up
           then bishop_step b xs r c 1 1 \<bind> (\<lambda>moves. bishop_step b moves r c 1 (- 1))
           else Some xs) = Some (xs @ new) \<and> (\<forall>m \<in> set new. ?ok m)" for xs
    proof (cases "r + 2 \<le> river_up")
      case True
      have "\<exists>new. (bishop_step b xs r c 1 1 \<bind> (\<lambda>moves. bishop_step b moves r c 1 (- 1))) =
          Some (xs @ new) \<and> (\<forall>m \<in> set new. ?ok m)"
        using u True by (intro two step) simp_all
      then show ?thesis using True by simp
    next
      case False
      then show ?thesis using none by simp
    qed
    have "\<exists>new. ((if r + 2 \<le> river_up
           then bishop_step b ms r c 1 1 \<bind> (\<lambda>moves. bishop_step b moves r c 1 (- 1))
           else Some ms) \<bind>
          (\<lambda>moves. bishop_step b moves r c (- 1) 1 \<bind> (\<lambda>moves. bishop_step b moves r c (- 1) (- 1)))) =
        Some (ms @ new) \<and> (\<forall>m \<in> set new. ?ok m)"
      by (rule two [OF fwd bwd])
    then show ?thesis using u by (simp add: gen_moves_bishop_def)
  next
    assume d: "s = down \<and> river_down \<le> r"
    have bwd: "\<exists>new. (bishop_step b xs r c 1 1 \<bind> (\<lambda>moves. bishop_step b moves r c 1 (- 1))) =
        Some (xs @ new) \<and> (\<forall>m \<in> set new. ?ok m)" for xs
      using d by (intro two step) simp_all
    have fwd: "\<exists>new. (if river_down \<le> r - 2
           then bishop_step b xs r c (- 1) 1 \<bind> (\<lambda>moves. bishop_step b moves r c (- 1) (- 1))
           else Some xs) = Some (xs @ new) \<and> (\<forall>m \<in> set new. ?ok m)" for xs
    proof (cases "river_down \<le> r - 2")
      case True
      have "\<exists>new. (bishop_step b xs r c (- 1) 1 \<bind> (\<lambda>moves. bishop_step b moves r c (- 1) (- 1))) =
          Some (xs @ new) \<and> (\<forall>m \<in> set new. ?ok m)"
        using d True by (intro two step) simp_all
      then show ?thesis using True by simp
    next
      case False
      then show ?thesis using none by simp
    qed
    have "\<exists>new. ((if river_down \<le> r - 2
           then bishop_step b ms r c (- 1) 1 \<bind> (\<lambda>moves. bishop_step b moves r c (- 1) (- 1))
           else Some ms) \<bind>
          (\<lambda>moves. bishop_step b moves r c 1 1 \<bind> (\<lambda>moves. bishop_step b moves r c 1 (- 1)))) =
        Some (ms @ new) \<and> (\<forall>m \<in> set new. ?ok m)"
      by (rule two [OF fwd bwd])
    then show ?thesis using d by (simp add: gen_moves_bishop_def)
  qed
qed

theorem bishop_own_side_witness:
  "wf_board new_board \<and> interior 2 4 \<and>
   ((up = up \<and> 2 \<le> river_up) \<or> (up = down \<and> river_down \<le> 2)) \<and>
   (\<exists>new. gen_moves_bishop new_board [] 2 4 up = Some ([] @ new) \<and>
      (\<forall>m \<in> set new. bishop_move_ok new_board up 2 4 m))"
proof -
  have i: "interior 2 4" by (simp add: interior_def board_consts)
  have s: "(up = up \<and> 2 \<le> river_up) \<or> (up = down \<and> river_down \<le> 2)"
    by (simp add: board_consts)
  show ?thesis
    using bishop_own_side [OF wf_board_new i s, of "[]"] wf_board_new i s by blast
qed

text \<open>
  C8 as stated fails on a board where an upper bishop already stands beyond the river:
  from row 10 the generator sends it to row 8, which is greater than \<open>river_up\<close>.
\<close>

theorem bishop_beyond_river_counterexample:
  "wf_board stray_bishop_board \<and>
   get stray_bishop_board 10 4 = Some P_UB \<and>
   gen_moves_bishop stray_bishop_board [] 10 4 up = Some [Move4 10 4 8 6, Move4 10 4 8 2] \<and>
   river_up < row (mto (Move4 10 4 8 6))"
  by code_simp

section \<open>Win detection after a capture of the general\<close>

text \<open>
  C1 at a board reached from the opening by five generated moves: the upper general may
  take the lower general along the open column (the move is in the list generated for
  \<open>up\<close> and its target holds the lower general), and after the move \<open>is_win\<close> answers
  \<open>false\<close> for \<open>up\<close>: the upper general now stands in the lower palace, where \<open>is_win\<close>
  does not look for it.
\<close>

theorem flying_capture_is_no_win:
  "play new_board down flying_line = Some facing_board \<and>
   map_option (\<lambda>ms. flying_capture \<in> set ms) (gen_possible_moves facing_board up) = Some True \<and>
   get_pos facing_board (mto flying_capture) = Some P_DG \<and>
   (move facing_board flying_capture \<bind> (\<lambda>b. is_win b up)) = Some False \<and>
   (move facing_board flying_capture \<bind> (\<lambda>b. get_pos b (mto flying_capture))) = Some P_UG"
  by code_simp

section \<open>Parallel and sequential search\<close>

text \<open>
  C2 at a concrete input: for \<open>down\<close> at depth 1 the sequential search ends with the
  value 8 and the last quiet move, the parallel search with the value 10 and the capture
  of the guarded pawn, because its tasks hand \<open>true\<close> to \<open>min_max\<close> and so let \<open>down\<close> move
  twice in a row.
\<close>

theorem parallel_differs_from_sequential:
  "gen_root material_tables guarded_pawn_board down 1 =
     Some (8, Move4 11 5 11 6, guarded_pawn_board) \<and>
   gen_parallel_root material_tables guarded_pawn_board down 1 = Some (10, Move4 6 3 6 2)"
  by code_simp

section \<open>A side without moves\<close>

text \<open>
  C10. At a depth of at least one, when the generator returns no move for the side to
  move (\<open>down\<close> at a maximizing node, \<open>up\<close> at a minimizing one), \<open>min_max\<close> returns
  \<open>int32_min\<close> at a maximizing node and \<open>int32_max\<close> at a minimizing node and leaves the
  board as it is, whatever the window and whatever the tables: the position is not
  evaluated.
\<close>

theorem min_max_no_moves:
  assumes "0 < d"
    and "gen_possible_moves b (if isMax then down else up) = Some []"
  shows "min_max tb b d alpha beta isMax = Some (if isMax then int32_min else int32_max, b)"
proof -
  obtain d' where "d = Suc d'" using assms(1) by (cases d) auto
  then show ?thesis using assms(2) by (cases isMax) simp_all
qed

theorem min_max_no_moves_witness:
  "(0::nat) < 2 \<and>
   gen_possible_moves bare_board (if True then down else up) = Some [] \<and>
   gen_possible_moves bare_board (if False then down else up) = Some [] \<and>
   min_max material_tables bare_board 2 int32_min int32_max True =
     Some (if True then int32_min else int32_max, bare_board) \<and>
   min_max material_tables bare_board 2 int32_min int32_max False =
     Some (if False then int32_min else int32_max, bare_board)"
proof -
  have d: "(0::nat) < 2" by simp
  have t: "gen_possible_moves bare_board (if True then down else up) = Some []" by code_simp
  have f: "gen_possible_moves bare_board (if False then down else up) = Some []" by code_simp
  show ?thesis
    using d t f min_max_no_moves [OF d t, of material_tables int32_min int32_max]
      min_max_no_moves [OF d f, of material_tables int32_min int32_max]
    by simp
qed

section \<open>Recognising a move in the input\<close>

lemma char_between_file: "char_between CHR ''a'' x CHR ''i'' \<longleftrightarrow> is_file x"
proof
  assume "char_between CHR ''a'' x CHR ''i''"
  then have "97 \<le> (of_char x :: nat)" "(of_char x :: nat) \<le> 105"
    by (simp_all add: char_between_def)
  then have "(of_char x :: nat) = 97 \<or> (of_char x :: nat) = 98 \<or> (of_char x :: nat) = 99 \<or>
      (of_char x :: nat) = 100 \<or> (of_char x :: nat) = 101 \<or> (of_char x :: nat) = 102 \<or>
      (of_char x :: nat) = 103 \<or> (of_char x :: nat) = 104 \<or> (of_char x :: nat) = 105"
    by presburger
  then show "is_file x"
    unfolding is_file_def by (auto intro!: of_char_eqI [where 'a = nat])
next
  assume "is_file x"
  then show "char_between CHR ''a'' x CHR ''i''"
    by (auto simp: is_file_def char_between_def)
qed

lemma char_between_rank: "char_between CHR ''0'' x CHR ''9'' \<longleftrightarrow> is_rank x"
proof
  assume "char_between CHR ''0'' x CHR ''9''"
  then have "48 \<le> (of_char x :: nat)" "(of_char x :: nat) \<le> 57"
    by (simp_all add: char_between_def)
  then have "(of_char x :: nat) = 48 \<or> (of_char x :: nat) = 49 \<or> (of_char x :: nat) = 50 \<or>
      (of_char x :: nat) = 51 \<or> (of_char x :: nat) = 52 \<or> (of_char x :: nat) = 53 \<or>
      (of_char x :: nat) = 54 \<or> (of_char x :: nat) = 55 \<or> (of_char x :: nat) = 56 \<or>
      (of_char x :: nat) = 57"
    by presburger
  then show "is_rank x"
    unfolding is_rank_def by (auto intro!: of_char_eqI [where 'a = nat])
next
  assume "is_rank x"
  then show "char_between CHR ''0'' x CHR ''9''"
    by (auto simp: is_rank_def char_between_def)
qed

lemma is_input_a_move_iff: "is_input_a_move input \<longleftrightarrow> starts_with_move input"
proof (cases input)
  case Nil
  then show ?thesis by (simp add: is_input_a_move_def starts_with_move_def)
next
  case a: (Cons f1 t1)
  show ?thesis
  proof (cases t1)
    case Nil
    then show ?thesis using a by (simp add: is_input_a_move_def starts_with_move_def)
  next
    case b: (Cons r1 t2)
    show ?thesis
    proof (cases t2)
      case Nil
      then show ?thesis using a b by (simp add: is_input_a_move_def starts_with_move_def)
    next
      case c: (Cons f2 t3)
      show ?thesis
      proof (cases t3)
        case Nil
        then show ?thesis using a b c by (simp add: is_input_a_move_def starts_with_move_def)
      next
        case (Cons r2 rest)
        then show ?thesis
          using a b c
          by (simp add: is_input_a_move_def starts_with_move_def char_between_file
              char_between_rank)
      qed
    qed
  qed
qed

text \<open>
  C9, as it holds. \<open>handle_move\<close> takes the input for a move exactly when it has at least
  four characters of which the first four are file, rank, file, rank (files \<open>a..i\<close>, ranks
  \<open>0..9\<close>); every other input is answered with \<open>unknown_command\<close> and the game, the board
  with it, is left as it was.
\<close>

theorem handle_move_recognises:
  "(is_input_a_move input \<longleftrightarrow> starts_with_move input) \<and>
   (\<not> starts_with_move input \<longrightarrow> handle_move tb g input = Some (unknown_command, g)) \<and>
   (starts_with_move input \<longrightarrow> (\<forall>g'. handle_move tb g input \<noteq> Some (unknown_command, g')))"
proof (intro conjI impI allI)
  show "is_input_a_move input \<longleftrightarrow> starts_with_move input" by (rule is_input_a_move_iff)
  show "handle_move tb g input = Some (unknown_command, g)" if "\<not> starts_with_move input"
    using that by (simp add: handle_move_def is_input_a_move_iff)
  show "handle_move tb g input \<noteq> Some (unknown_command, g')" if "starts_with_move input" for g'
    using that
    by (auto simp: handle_move_def is_input_a_move_iff Let_def
        split: bind_splits if_splits)
qed

theorem handle_move_recognises_witness:
  "\<not> starts_with_move ''b2e'' \<and> starts_with_move ''a1a2'' \<and>
   handle_move material_tables new_game ''b2e'' = Some (unknown_command, new_game) \<and>
   (\<forall>g'. handle_move material_tables new_game ''a1a2'' \<noteq> Some (unknown_command, g'))"
proof -
  have n: "\<not> starts_with_move ''b2e''" by (simp add: starts_with_move_def)
  have y: "starts_with_move ''a1a2''" by (simp add: starts_with_move_def is_file_def is_rank_def)
  show ?thesis
    using n y handle_move_recognises [of "''b2e''" material_tables new_game]
      handle_move_recognises [of "''a1a2''" material_tables new_game]
    by blast
qed

text \<open>
  C9 as stated fails on an input of five characters: it is taken for a move (here one
  that starts on an empty cell, so the answer is \<open>not_your_piece\<close>), although it does not
  have exactly four characters.
\<close>

theorem longer_input_counterexample:
  "length ''a1a2x'' \<noteq> 4 \<and> is_input_a_move ''a1a2x'' \<and>
   handle_move material_tables new_game ''a1a2x'' = Some (not_your_piece, new_game)"
  by code_simp

section \<open>The search is defined and gives the board back\<close>

lemma cell_index_inj:
  assumes "in_storage r c" "in_storage r' c'" "nat (r * 13 + c) = nat (r' * 13 + c')"
  shows "r = r' \<and> c = c'"
proof -
  have b: "0 \<le> r" "0 \<le> c" "c < 13" "0 \<le> r'" "0 \<le> c'" "c' < 13"
    using assms(1,2) by (simp_all add: in_storage_def board_consts)
  then have "r * 13 + c = r' * 13 + c'" using assms(3) by simp
  with b show ?thesis by presburger
qed

lemma wf_cell:
  assumes "wf_board b" "in_storage r c"
  shows "(data b ! nat (r * 13 + c) = P_EO) = (\<not> interior r c)"
  using wf_get [OF assms] assms
  by (auto simp: get_def cell_index_storage wf_length)

lemma wf_after_move:
  assumes "wf_board b" "pseudo_move_ok b s m" "s = up \<or> s = down"
  shows "\<exists>b'. move b m = Some b' \<and> undo b' = Some b \<and> wf_board b'"
proof -
  obtain fr fc tr tc where m: "m = Move (Pos fr fc) (Pos tr tc)"
    by (metis Move.exhaust Pos.exhaust)
  have fi: "interior fr fc" and ti: "interior tr tc"
    using assms(2) by (simp_all add: pseudo_move_ok_def m interior_pos_def)
  obtain f where f: "get b fr fc = Some f" "piece_side f = s"
    using assms(2) by (auto simp: pseudo_move_ok_def m get_pos_def split: option.splits)
  define i where "i = nat (fr * 13 + fc)"
  define j where "j = nat (tr * 13 + tc)"
  have len: "length (data b) = 182" using assms(1) by (rule wf_length)
  have fv: "f = data b ! i"
    using f(1) by (simp add: get_def cell_index_storage [OF len interior_in_storage [OF fi]] i_def)
  have fne: "f \<noteq> P_EO" using f(2) assms(3) by auto
  obtain b' where b': "move b m = Some b'" "undo b' = Some b"
    "data b' = (data b)[i := P_EE, j := data b ! i]"
    using move_then_undo [OF len, of m] fi ti
    by (auto simp: m interior_pos_def i_def j_def)
  have "wf_board b'"
    unfolding wf_board_def
  proof (intro conjI ballI)
    show "length (data b') = 182" by (simp add: b'(3) len)
  next
    fix r c :: int
    assume "r \<in> set [0..13]" "c \<in> set [0..12]"
    then have st: "in_storage r c" by (simp add: in_storage_def board_consts)
    have k: "nat (r * 13 + c) < length (data b)"
      using st by (auto simp: len in_storage_def board_consts)
    consider "nat (r * 13 + c) = j" | "nat (r * 13 + c) \<noteq> j" "nat (r * 13 + c) = i"
      | "nat (r * 13 + c) \<noteq> j" "nat (r * 13 + c) \<noteq> i" by blast
    then show "(data b' ! nat (r * col_num + c) = P_EO) = (\<not> interior r c)"
    proof cases
      case 1
      then have "r = tr \<and> c = tc"
        using cell_index_inj [OF st interior_in_storage [OF ti]] by (simp add: j_def)
      then show ?thesis using 1 k ti fne by (simp add: b'(3) col_num_def fv)
    next
      case 2
      then have "r = fr \<and> c = fc"
        using cell_index_inj [OF st interior_in_storage [OF fi]] by (simp add: i_def)
      then show ?thesis using 2 k fi by (simp add: b'(3) col_num_def)
    next
      case 3
      then show ?thesis using wf_cell [OF assms(1) st] by (simp add: b'(3) col_num_def)
    qed
  qed
  with b'(1,2) show ?thesis by blast
qed

lemma for_each_inv:
  assumes "\<And>x s. x \<in> set xs \<Longrightarrow> P s \<Longrightarrow> \<exists>s'. body x s = Some s' \<and> P s'"
    and "P s"
  shows "\<exists>s'. for_each xs body s = Some s' \<and> P s'"
  using assms
proof (induction xs arbitrary: s)
  case Nil
  then show ?case by simp
next
  case (Cons x xs)
  obtain s1 where s1: "body x s = Some s1" "P s1" using Cons.prems by auto
  have "\<exists>s'. for_each xs body s1 = Some s' \<and> P s'"
    using Cons.prems(1) s1(2) by (intro Cons.IH) simp_all
  then show ?case by (simp add: s1(1))
qed

lemma wrap32_is_int32: "is_int32 (wrap32 x)"
  by (simp add: wrap32_def is_int32_def int32_min_def int32_max_def)

lemma evaluate_total:
  assumes "wf_board b"
  shows "\<exists>v. evaluate tb b = Some v \<and> is_int32 v"
  unfolding evaluate_def
proof (intro for_each_inv)
  show "is_int32 0" by (simp add: is_int32_def int32_min_def int32_max_def)
next
  fix r c v
  assume "r \<in> set [row_begin..row_end]" "c \<in> set [col_begin..col_end]" "is_int32 v"
  then have "interior r c" by (simp add: interior_def)
  then obtain p where "get b r c = Some p"
    using wf_get [OF assms interior_in_storage] by blast
  then show "\<exists>s'. evaluate_cell tb b r c v = Some s' \<and> is_int32 s'"
    using \<open>is_int32 v\<close> by (simp add: evaluate_cell_def wrap32_is_int32)
qed

lemma max_loop_total:
  assumes "wf_board b" "s = up \<or> s = down"
    and "\<And>b' a bt. wf_board b' \<Longrightarrow> \<exists>v. child b' a bt = Some (v, b') \<and> is_int32 v"
    and "\<forall>m \<in> set ms. pseudo_move_ok b s m" "is_int32 maxValue"
  shows "\<exists>v. max_loop child b ms maxValue alpha beta = Some (v, b) \<and> is_int32 v"
  using assms(4,5)
proof (induction ms arbitrary: maxValue alpha)
  case Nil
  then show ?case by simp
next
  case (Cons m ms)
  obtain b' where b': "move b m = Some b'" "undo b' = Some b" "wf_board b'"
    using wf_after_move [OF assms(1) _ assms(2), of m] Cons.prems(1) by auto
  obtain v where v: "child b' alpha beta = Some (v, b')" "is_int32 v"
    using assms(3) [OF b'(3)] by blast
  have r: "is_int32 (max maxValue v)"
    using v(2) Cons.prems(2) by (simp add: is_int32_def max_def)
  have "\<exists>w. max_loop child b ms (max maxValue v) (max alpha (max maxValue v)) beta = Some (w, b) \<and>
            is_int32 w"
    using Cons.prems(1) r by (intro Cons.IH) simp_all
  then show ?case using r by (simp add: b' v Let_def)
qed

lemma min_loop_total:
  assumes "wf_board b" "s = up \<or> s = down"
    and "\<And>b' a bt. wf_board b' \<Longrightarrow> \<exists>v. child b' a bt = Some (v, b') \<and> is_int32 v"
    and "\<forall>m \<in> set ms. pseudo_move_ok b s m" "is_int32 minValue"
  shows "\<exists>v. min_loop child b ms minValue alpha beta = Some (v, b) \<and> is_int32 v"
  using assms(4,5)
proof (induction ms arbitrary: minValue beta)
  case Nil
  then show ?case by simp
next
  case (Cons m ms)
  obtain b' where b': "move b m = Some b'" "undo b' = Some b" "wf_board b'"
    using wf_after_move [OF assms(1) _ assms(2), of m] Cons.prems(1) by auto
  obtain v where v: "child b' alpha beta = Some (v, b')" "is_int32 v"
    using assms(3) [OF b'(3)] by blast
  have r: "is_int32 (min minValue v)"
    using v(2) Cons.prems(2) by (simp add: is_int32_def min_def)
  have "\<exists>w. min_loop child b ms (min minValue v) alpha (min beta (min minValue v)) = Some (w, b) \<and>
            is_int32 w"
    using Cons.prems(1) r by (intro Cons.IH) simp_all
  then show ?case using r by (simp add: b' v Let_def)
qed

lemma int32_bounds: "is_int32 int32_min" "is_int32 int32_max"
  by (simp_all add: is_int32_def int32_min_def int32_max_def)

lemma min_max_total:
  assumes "wf_board b"
  shows "\<exists>v. min_max tb b d alpha beta isMax = Some (v, b) \<and> is_int32 v"
  using assms
proof (induction d arbitrary: b alpha beta isMax)
  case 0
  then show ?case using evaluate_total [of b tb] by auto
next
  case (Suc d)
  show ?case
  proof (cases isMax)
    case True
    obtain ms where ms: "gen_possible_moves b down = Some ms"
      "\<forall>m \<in> set ms. pseudo_move_ok b down m"
      using gen_possible_moves_good [OF Suc.prems, of down] by (auto simp: good_def)
    have "\<exists>v. max_loop (\<lambda>b a bt. min_max tb b d a bt (\<not> isMax)) b ms int32_min alpha beta =
            Some (v, b) \<and> is_int32 v"
      using Suc.prems ms(2) int32_bounds(1)
      by (intro max_loop_total [where s = down] Suc.IH) simp_all
    then show ?thesis using True by (simp add: ms(1))
  next
    case False
    obtain ms where ms: "gen_possible_moves b up = Some ms"
      "\<forall>m \<in> set ms. pseudo_move_ok b up m"
      using gen_possible_moves_good [OF Suc.prems, of up] by (auto simp: good_def)
    have "\<exists>v. min_loop (\<lambda>b a bt. min_max tb b d a bt (\<not> isMax)) b ms int32_max alpha beta =
            Some (v, b) \<and> is_int32 v"
      using Suc.prems ms(2) int32_bounds(2)
      by (intro min_loop_total [where s = up] Suc.IH) simp_all
    then show ?thesis using False by (simp add: ms(1))
  qed
qed


section \<open>The choice at the root\<close>

lemma child_score_total:
  assumes "wf_board b" "s = up \<or> s = down" "pseudo_move_ok b s m"
  shows "\<exists>b' v. move b m = Some b' \<and> undo b' = Some b \<and>
           min_max tb b' d int32_min int32_max isMax = Some (v, b') \<and>
           child_score tb b d isMax m = Some v \<and> is_int32 v"
proof -
  obtain b' where b': "move b m = Some b'" "undo b' = Some b" "wf_board b'"
    using wf_after_move [OF assms(1,3,2)] by blast
  obtain v where v: "min_max tb b' d int32_min int32_max isMax = Some (v, b')" "is_int32 v"
    using min_max_total [OF b'(3)] by blast
  show ?thesis using b' v by (simp add: child_score_def)
qed

lemma root_min_loop_pick:
  assumes "wf_board b" "s = up \<or> s = down" "\<forall>m \<in> set ms. pseudo_move_ok b s m"
  shows "\<exists>vs. length vs = length ms \<and>
           map (child_score tb b d isMax) ms = map Some vs \<and> (\<forall>v \<in> set vs. is_int32 v) \<and>
           (\<forall>minValue bestMove. root_min_loop tb d isMax b ms minValue bestMove =
              Some (fst (pick_min (zip ms vs) minValue bestMove),
                    snd (pick_min (zip ms vs) minValue bestMove), b))"
  using assms(3)
proof (induction ms)
  case Nil
  then show ?case by simp
next
  case (Cons m ms)
  obtain b' v where c: "move b m = Some b'" "undo b' = Some b"
    "min_max tb b' d int32_min int32_max isMax = Some (v, b')"
    "child_score tb b d isMax m = Some v" "is_int32 v"
    using child_score_total [OF assms(1,2), where m = m and tb = tb and d = d and isMax = isMax]
      Cons.prems by auto
  obtain vs where vs: "length vs = length ms"
    "map (child_score tb b d isMax) ms = map Some vs" "\<forall>v \<in> set vs. is_int32 v"
    "\<And>minValue bestMove. root_min_loop tb d isMax b ms minValue bestMove =
              Some (fst (pick_min (zip ms vs) minValue bestMove),
                    snd (pick_min (zip ms vs) minValue bestMove), b)"
    using Cons.IH Cons.prems by auto
  show ?case
    using c vs by (intro exI [of _ "v # vs"]) simp
qed

lemma root_max_loop_pick:
  assumes "wf_board b" "s = up \<or> s = down" "\<forall>m \<in> set ms. pseudo_move_ok b s m"
  shows "\<exists>vs. length vs = length ms \<and>
           map (child_score tb b d isMax) ms = map Some vs \<and> (\<forall>v \<in> set vs. is_int32 v) \<and>
           (\<forall>maxValue bestMove. root_max_loop tb d isMax b ms maxValue bestMove =
              Some (fst (pick_max (zip ms vs) maxValue bestMove),
                    snd (pick_max (zip ms vs) maxValue bestMove), b))"
  using assms(3)
proof (induction ms)
  case Nil
  then show ?case by simp
next
  case (Cons m ms)
  obtain b' v where c: "move b m = Some b'" "undo b' = Some b"
    "min_max tb b' d int32_min int32_max isMax = Some (v, b')"
    "child_score tb b d isMax m = Some v" "is_int32 v"
    using child_score_total [OF assms(1,2), where m = m and tb = tb and d = d and isMax = isMax]
      Cons.prems by auto
  obtain vs where vs: "length vs = length ms"
    "map (child_score tb b d isMax) ms = map Some vs" "\<forall>v \<in> set vs. is_int32 v"
    "\<And>maxValue bestMove. root_max_loop tb d isMax b ms maxValue bestMove =
              Some (fst (pick_max (zip ms vs) maxValue bestMove),
                    snd (pick_max (zip ms vs) maxValue bestMove), b)"
    using Cons.IH Cons.prems by auto
  show ?case
    using c vs by (intro exI [of _ "v # vs"]) simp
qed

text \<open>The loop with \<open>\<le>\<close> ends on the last position that holds the least score.\<close>

lemma pick_min_last:
  assumes "length ms = length vs"
  shows "(pick_min (zip ms vs) minValue bestMove = (minValue, bestMove) \<and>
            (\<forall>v \<in> set vs. minValue < v)) \<or>
         (\<exists>i < length vs. pick_min (zip ms vs) minValue bestMove = (vs ! i, ms ! i) \<and>
            vs ! i \<le> minValue \<and> (\<forall>j < length vs. vs ! i \<le> vs ! j) \<and>
            (\<forall>j < length vs. i < j \<longrightarrow> vs ! i < vs ! j))"
  using assms
proof (induction ms vs arbitrary: minValue bestMove rule: list_induct2)
  case Nil
  then show ?case by simp
next
  case (Cons m ms v vs)
  show ?case
  proof (cases "v \<le> minValue")
    case True
    from Cons.IH [of v m] show ?thesis
    proof
      assume a: "pick_min (zip ms vs) v m = (v, m) \<and> (\<forall>w \<in> set vs. v < w)"
      have "\<exists>i < length (v # vs). pick_min (zip (m # ms) (v # vs)) minValue bestMove =
              ((v # vs) ! i, (m # ms) ! i) \<and> (v # vs) ! i \<le> minValue \<and>
              (\<forall>j < length (v # vs). (v # vs) ! i \<le> (v # vs) ! j) \<and>
              (\<forall>j < length (v # vs). i < j \<longrightarrow> (v # vs) ! i < (v # vs) ! j)"
        using a True by (intro exI [of _ 0]) (auto simp: nth_Cons' less_imp_le)
      then show ?thesis ..
    next
      assume "\<exists>i < length vs. pick_min (zip ms vs) v m = (vs ! i, ms ! i) \<and>
            vs ! i \<le> v \<and> (\<forall>j < length vs. vs ! i \<le> vs ! j) \<and>
            (\<forall>j < length vs. i < j \<longrightarrow> vs ! i < vs ! j)"
      then obtain i where i: "i < length vs" "pick_min (zip ms vs) v m = (vs ! i, ms ! i)"
        "vs ! i \<le> v" "\<forall>j < length vs. vs ! i \<le> vs ! j"
        "\<forall>j < length vs. i < j \<longrightarrow> vs ! i < vs ! j" by blast
      have "\<exists>i < length (v # vs). pick_min (zip (m # ms) (v # vs)) minValue bestMove =
              ((v # vs) ! i, (m # ms) ! i) \<and> (v # vs) ! i \<le> minValue \<and>
              (\<forall>j < length (v # vs). (v # vs) ! i \<le> (v # vs) ! j) \<and>
              (\<forall>j < length (v # vs). i < j \<longrightarrow> (v # vs) ! i < (v # vs) ! j)"
        using i True by (intro exI [of _ "Suc i"]) (auto simp: nth_Cons' less_Suc_eq_0_disj)
      then show ?thesis ..
    qed
  next
    case False
    from Cons.IH [of minValue bestMove] show ?thesis
    proof
      assume "pick_min (zip ms vs) minValue bestMove = (minValue, bestMove) \<and>
              (\<forall>w \<in> set vs. minValue < w)"
      then show ?thesis using False by simp
    next
      assume "\<exists>i < length vs. pick_min (zip ms vs) minValue bestMove = (vs ! i, ms ! i) \<and>
            vs ! i \<le> minValue \<and> (\<forall>j < length vs. vs ! i \<le> vs ! j) \<and>
            (\<forall>j < length vs. i < j \<longrightarrow> vs ! i < vs ! j)"
      then obtain i where i: "i < length vs"
        "pick_min (zip ms vs) minValue bestMove = (vs ! i, ms ! i)"
        "vs ! i \<le> minValue" "\<forall>j < length vs. vs ! i \<le> vs ! j"
        "\<forall>j < length vs. i < j \<longrightarrow> vs ! i < vs ! j" by blast
      have "\<exists>i < length (v # vs). pick_min (zip (m # ms) (v # vs)) minValue bestMove =
              ((v # vs) ! i, (m # ms) ! i) \<and> (v # vs) ! i \<le> minValue \<and>
              (\<forall>j < length (v # vs). (v # vs) ! i \<le> (v # vs) ! j) \<and>
              (\<forall>j < length (v # vs). i < j \<longrightarrow> (v # vs) ! i < (v # vs) ! j)"
        using i False by (intro exI [of _ "Suc i"]) (auto simp: nth_Cons' less_Suc_eq_0_disj)
      then show ?thesis ..
    qed
  qed
qed

text \<open>The loop with \<open>\<ge>\<close> ends on the last position that holds the greatest score.\<close>

lemma pick_max_last:
  assumes "length ms = length vs"
  shows "(pick_max (zip ms vs) maxValue bestMove = (maxValue, bestMove) \<and>
            (\<forall>v \<in> set vs. v < maxValue)) \<or>
         (\<exists>i < length vs. pick_max (zip ms vs) maxValue bestMove = (vs ! i, ms ! i) \<and>
            maxValue \<le> vs ! i \<and> (\<forall>j < length vs. vs ! j \<le> vs ! i) \<and>
            (\<forall>j < length vs. i < j \<longrightarrow> vs ! j < vs ! i))"
  using assms
proof (induction ms vs arbitrary: maxValue bestMove rule: list_induct2)
  case Nil
  then show ?case by simp
next
  case (Cons m ms v vs)
  show ?case
  proof (cases "maxValue \<le> v")
    case True
    from Cons.IH [of v m] show ?thesis
    proof
      assume a: "pick_max (zip ms vs) v m = (v, m) \<and> (\<forall>w \<in> set vs. w < v)"
      have "\<exists>i < length (v # vs). pick_max (zip (m # ms) (v # vs)) maxValue bestMove =
              ((v # vs) ! i, (m # ms) ! i) \<and> maxValue \<le> (v # vs) ! i \<and>
              (\<forall>j < length (v # vs). (v # vs) ! j \<le> (v # vs) ! i) \<and>
              (\<forall>j < length (v # vs). i < j \<longrightarrow> (v # vs) ! j < (v # vs) ! i)"
        using a True by (intro exI [of _ 0]) (auto simp: nth_Cons' less_imp_le)
      then show ?thesis ..
    next
      assume "\<exists>i < length vs. pick_max (zip ms vs) v m = (vs ! i, ms ! i) \<and>
            v \<le> vs ! i \<and> (\<forall>j < length vs. vs ! j \<le> vs ! i) \<and>
            (\<forall>j < length vs. i < j \<longrightarrow> vs ! j < vs ! i)"
      then obtain i where i: "i < length vs" "pick_max (zip ms vs) v m = (vs ! i, ms ! i)"
        "v \<le> vs ! i" "\<forall>j < length vs. vs ! j \<le> vs ! i"
        "\<forall>j < length vs. i < j \<longrightarrow> vs ! j < vs ! i" by blast
      have "\<exists>i < length (v # vs). pick_max (zip (m # ms) (v # vs)) maxValue bestMove =
              ((v # vs) ! i, (m # ms) ! i) \<and> maxValue \<le> (v # vs) ! i \<and>
              (\<forall>j < length (v # vs). (v # vs) ! j \<le> (v # vs) ! i) \<and>
              (\<forall>j < length (v # vs). i < j \<longrightarrow> (v # vs) ! j < (v # vs) ! i)"
        using i True by (intro exI [of _ "Suc i"]) (auto simp: nth_Cons' less_Suc_eq_0_disj)
      then show ?thesis ..
    qed
  next
    case False
    from Cons.IH [of maxValue bestMove] show ?thesis
    proof
      assume "pick_max (zip ms vs) maxValue bestMove = (maxValue, bestMove) \<and>
              (\<forall>w \<in> set vs. w < maxValue)"
      then show ?thesis using False by simp
    next
      assume "\<exists>i < length vs. pick_max (zip ms vs) maxValue bestMove = (vs ! i, ms ! i) \<and>
            maxValue \<le> vs ! i \<and> (\<forall>j < length vs. vs ! j \<le> vs ! i) \<and>
            (\<forall>j < length vs. i < j \<longrightarrow> vs ! j < vs ! i)"
      then obtain i where i: "i < length vs"
        "pick_max (zip ms vs) maxValue bestMove = (vs ! i, ms ! i)"
        "maxValue \<le> vs ! i" "\<forall>j < length vs. vs ! j \<le> vs ! i"
        "\<forall>j < length vs. i < j \<longrightarrow> vs ! j < vs ! i" by blast
      have "\<exists>i < length (v # vs). pick_max (zip (m # ms) (v # vs)) maxValue bestMove =
              ((v # vs) ! i, (m # ms) ! i) \<and> maxValue \<le> (v # vs) ! i \<and>
              (\<forall>j < length (v # vs). (v # vs) ! j \<le> (v # vs) ! i) \<and>
              (\<forall>j < length (v # vs). i < j \<longrightarrow> (v # vs) ! j < (v # vs) ! i)"
        using i False by (intro exI [of _ "Suc i"]) (auto simp: nth_Cons' less_Suc_eq_0_disj)
      then show ?thesis ..
    qed
  qed
qed


lemma nth_map_Some:
  assumes "map f ms = map Some vs" "j < length ms"
  shows "f (ms ! j) = Some (vs ! j)"
proof -
  have "length vs = length ms" using assms(1) by (metis length_map)
  then have "map f ms ! j = map Some vs ! j" "j < length vs" using assms by simp_all
  then show ?thesis using assms(2) by simp
qed

lemma root_choice_up:
  assumes "wf_board b" "gen_possible_moves b up = Some ms" "ms \<noteq> []"
  shows "\<exists>i < length ms. \<exists>v. gen tb b up d = Some (ms ! i, b) \<and>
           child_score tb b d True (ms ! i) = Some v \<and>
           (\<forall>j < length ms. \<exists>w. child_score tb b d True (ms ! j) = Some w \<and>
              v \<le> w \<and> (i < j \<longrightarrow> w \<noteq> v))"
proof -
  have ok: "\<forall>m \<in> set ms. pseudo_move_ok b up m"
    using gen_possible_moves_good [OF assms(1), of up] assms(2) by (simp add: good_def)
  obtain vs where vs: "length vs = length ms"
    "map (child_score tb b d True) ms = map Some vs" "\<forall>v \<in> set vs. is_int32 v"
    "\<And>minValue bestMove. root_min_loop tb d True b ms minValue bestMove =
              Some (fst (pick_min (zip ms vs) minValue bestMove),
                    snd (pick_min (zip ms vs) minValue bestMove), b)"
    using root_min_loop_pick [OF assms(1) _ ok, of tb d True] by auto
  have "vs \<noteq> []" using vs(1) assms(3) by auto
  then have "\<not> (\<forall>v \<in> set vs. int32_max < v)"
    using vs(3) by (cases vs) (auto simp: is_int32_def)
  then obtain i where i: "i < length vs"
    "pick_min (zip ms vs) int32_max Move0 = (vs ! i, ms ! i)"
    "\<forall>j < length vs. vs ! i \<le> vs ! j" "\<forall>j < length vs. i < j \<longrightarrow> vs ! i < vs ! j"
    using pick_min_last [OF vs(1) [symmetric], of int32_max Move0] by blast
  have g: "gen tb b up d = Some (ms ! i, b)"
    by (simp add: gen_def gen_root_def assms(2) vs(4) i(2))
  have sc: "child_score tb b d True (ms ! j) = Some (vs ! j)" if "j < length ms" for j
    using nth_map_Some [OF vs(2) that] .
  have il: "i < length ms" using i(1) vs(1) by simp
  have rest: "\<forall>j < length ms. \<exists>w. child_score tb b d True (ms ! j) = Some w \<and>
      vs ! i \<le> w \<and> (i < j \<longrightarrow> w \<noteq> vs ! i)"
  proof (intro allI impI)
    fix j assume j: "j < length ms"
    show "\<exists>w. child_score tb b d True (ms ! j) = Some w \<and> vs ! i \<le> w \<and> (i < j \<longrightarrow> w \<noteq> vs ! i)"
      using sc [OF j] i(3,4) j vs(1) by (intro exI [of _ "vs ! j"]) auto
  qed
  show ?thesis
    using il g sc [OF il] rest by blast
qed

lemma root_choice_down:
  assumes "wf_board b" "gen_possible_moves b down = Some ms" "ms \<noteq> []"
  shows "\<exists>i < length ms. \<exists>v. gen tb b down d = Some (ms ! i, b) \<and>
           child_score tb b d False (ms ! i) = Some v \<and>
           (\<forall>j < length ms. \<exists>w. child_score tb b d False (ms ! j) = Some w \<and>
              w \<le> v \<and> (i < j \<longrightarrow> w \<noteq> v))"
proof -
  have ok: "\<forall>m \<in> set ms. pseudo_move_ok b down m"
    using gen_possible_moves_good [OF assms(1), of down] assms(2) by (simp add: good_def)
  obtain vs where vs: "length vs = length ms"
    "map (child_score tb b d False) ms = map Some vs" "\<forall>v \<in> set vs. is_int32 v"
    "\<And>maxValue bestMove. root_max_loop tb d False b ms maxValue bestMove =
              Some (fst (pick_max (zip ms vs) maxValue bestMove),
                    snd (pick_max (zip ms vs) maxValue bestMove), b)"
    using root_max_loop_pick [OF assms(1) _ ok, of tb d False] by auto
  have "vs \<noteq> []" using vs(1) assms(3) by auto
  then have "\<not> (\<forall>v \<in> set vs. v < int32_min)"
    using vs(3) by (cases vs) (auto simp: is_int32_def)
  then obtain i where i: "i < length vs"
    "pick_max (zip ms vs) int32_min Move0 = (vs ! i, ms ! i)"
    "\<forall>j < length vs. vs ! j \<le> vs ! i" "\<forall>j < length vs. i < j \<longrightarrow> vs ! j < vs ! i"
    using pick_max_last [OF vs(1) [symmetric], of int32_min Move0] by blast
  have g: "gen tb b down d = Some (ms ! i, b)"
    by (simp add: gen_def gen_root_def assms(2) vs(4) i(2))
  have sc: "child_score tb b d False (ms ! j) = Some (vs ! j)" if "j < length ms" for j
    using nth_map_Some [OF vs(2) that] .
  have il: "i < length ms" using i(1) vs(1) by simp
  have rest: "\<forall>j < length ms. \<exists>w. child_score tb b d False (ms ! j) = Some w \<and>
      w \<le> vs ! i \<and> (i < j \<longrightarrow> w \<noteq> vs ! i)"
  proof (intro allI impI)
    fix j assume j: "j < length ms"
    show "\<exists>w. child_score tb b d False (ms ! j) = Some w \<and> w \<le> vs ! i \<and> (i < j \<longrightarrow> w \<noteq> vs ! i)"
      using sc [OF j] i(3,4) j vs(1) by (intro exI [of _ "vs ! j"]) auto
  qed
  show ?thesis
    using il g sc [OF il] rest by blast
qed

text \<open>
  C6. On a well-formed board on which the generator returns a non-empty list \<open>ms\<close> for
  side \<open>s\<close>, \<open>gen\<close> is defined, hands the board back unchanged and returns a move
  \<open>ms ! i\<close> of that list. With the score of a root move being the result of \<open>min_max\<close> on
  the board after the move, at the given depth, with the window from \<open>int32_min\<close> to
  \<open>int32_max\<close> (maximizing after a move of \<open>up\<close>, minimizing after a move of \<open>down\<close>),
  the score of \<open>ms ! i\<close> is the least of all root moves for \<open>up\<close> and the greatest for
  \<open>down\<close>, and no move later in the list has the same score.
\<close>

theorem sequential_root_choice:
  assumes "wf_board b" "s = up \<or> s = down"
    and "gen_possible_moves b s = Some ms" "ms \<noteq> []"
  shows "\<exists>i < length ms. \<exists>v. gen tb b s d = Some (ms ! i, b) \<and>
           child_score tb b d (s = up) (ms ! i) = Some v \<and>
           (\<forall>j < length ms. \<exists>w. child_score tb b d (s = up) (ms ! j) = Some w \<and>
              (if s = up then v \<le> w else w \<le> v) \<and> (i < j \<longrightarrow> w \<noteq> v))"
proof (cases "s = up")
  case True
  then show ?thesis using root_choice_up [of b ms tb d] assms by simp
next
  case False
  then have "s = down" using assms(2) by simp
  then show ?thesis using root_choice_down [of b ms tb d] assms by simp
qed


theorem sequential_root_choice_witness:
  "wf_board guarded_pawn_board \<and> (down = up \<or> down = down) \<and>
   gen_possible_moves guarded_pawn_board down = Some guarded_pawn_moves \<and>
   guarded_pawn_moves \<noteq> [] \<and>
   (\<exists>i < length guarded_pawn_moves. \<exists>v.
      gen material_tables guarded_pawn_board down 1 =
        Some (guarded_pawn_moves ! i, guarded_pawn_board) \<and>
      child_score material_tables guarded_pawn_board 1 (down = up) (guarded_pawn_moves ! i) =
        Some v \<and>
      (\<forall>j < length guarded_pawn_moves. \<exists>w.
         child_score material_tables guarded_pawn_board 1 (down = up) (guarded_pawn_moves ! j) =
           Some w \<and>
         (if down = up then v \<le> w else w \<le> v) \<and> (i < j \<longrightarrow> w \<noteq> v)))"
proof -
  have w: "wf_board guarded_pawn_board" by code_simp
  have s: "down = up \<or> down = down" by simp
  have g: "gen_possible_moves guarded_pawn_board down = Some guarded_pawn_moves" by code_simp
  have n: "guarded_pawn_moves \<noteq> []" by (simp add: guarded_pawn_moves_def)
  show ?thesis
    using w s g n sequential_root_choice [OF w s g n, of material_tables 1] by blast
qed

end
